theory Spec2Isabelle
  imports Main "HOL-Library.Word" "HOL-Library.Monad_Syntax"
begin

unbundle bit_operations_syntax

section \<open>C strings\<close>

text \<open>
  A C string is represented by the list of its bytes before the terminating NUL, so the
  lists the functions below receive hold no NUL byte.  A \<^verbatim>\<open>char *\<close> into such a
  string is the pair of the string and an offset; the terminator is the byte at offset
  \<open>length s\<close>.  A read at any other offset outside the string (before its first byte,
  or behind its terminator) leaves the object: \<open>deref\<close> answers \<open>None\<close> there,
  and every function that reads through \<open>deref\<close> hands that \<open>None\<close> on.  In the
  running program such a read returns a byte of whatever lies beside the string.
\<close>

type_synonym cptr = "string \<times> int"

definition NUL :: char where
  "NUL = CHR 0x00"

definition deref :: "cptr \<Rightarrow> char option" where
  "deref p = (case p of (s, i) \<Rightarrow>
     if 0 \<le> i \<and> i < int (length s) then Some (s ! nat i)
     else if i = int (length s) then Some NUL
     else None)"

definition ptr_add :: "cptr \<Rightarrow> int \<Rightarrow> cptr" where
  "ptr_add p n = (fst p, snd p + n)"

text \<open>The bytes from a pointer up to the terminator, and their number (\<open>strlen\<close>).\<close>

definition bytes_at :: "cptr \<Rightarrow> string option" where
  "bytes_at p = (case p of (s, i) \<Rightarrow>
     if 0 \<le> i \<and> i \<le> int (length s) then Some (drop (nat i) s) else None)"

definition strlen :: "cptr \<Rightarrow> int option" where
  "strlen p = map_option (\<lambda>bs. int (length bs)) (bytes_at p)"

text \<open>
  Plain \<open>char\<close> converted to \<open>int\<close>: signed, as on the x86 targets the server is
  built for; on 7-bit ASCII the unsigned reading gives the same numbers.  \<open>strcmp\<close>
  compares bytes as \<open>unsigned char\<close>, as the C standard says.
\<close>

definition char_int :: "char \<Rightarrow> int" where
  "char_int c = (let n = (of_char c :: int) in if n < 128 then n else n - 256)"

definition uchar_int :: "char \<Rightarrow> int" where
  "uchar_int c = (of_char c :: int)"

text \<open>\<open>tolower\<close> in the C locale.\<close>

definition tolower :: "int \<Rightarrow> int" where
  "tolower c = (if 65 \<le> c \<and> c \<le> 90 then c + 32 else c)"

fun strcmp_bytes :: "string \<Rightarrow> string \<Rightarrow> int" where
  "strcmp_bytes [] [] = 0"
| "strcmp_bytes [] (y # ys) = - uchar_int y"
| "strcmp_bytes (x # xs) [] = uchar_int x"
| "strcmp_bytes (x # xs) (y # ys) =
     (if x = y then strcmp_bytes xs ys else uchar_int x - uchar_int y)"

definition strcmp :: "cptr \<Rightarrow> cptr \<Rightarrow> int option" where
  "strcmp p q = do {
     a \<leftarrow> bytes_at p;
     b \<leftarrow> bytes_at q;
     Some (strcmp_bytes a b)
   }"

section \<open>Match functions\<close>

subsection \<open>\<open>hacl_match\<close>\<close>

text \<open>
  The loop of \<open>hacl_match\<close> and the test behind it; \<open>pc\<close> and \<open>pm\<close> are the two
  running pointers, \<open>can\<close> and \<open>master\<close> the starts.  The result is 0 for a match and
  1 for none.
\<close>

function hacl_scan :: "cptr \<Rightarrow> cptr \<Rightarrow> int \<Rightarrow> int \<Rightarrow> int option" where
  "hacl_scan can master pc pm =
     (if pc > snd can \<and> pm > snd master then
        do {
          c \<leftarrow> deref (fst can, pc);
          m \<leftarrow> deref (fst master, pm);
          if tolower (char_int c) \<noteq> tolower (char_int m) then Some 1
          else hacl_scan can master (pc - 1) (pm - 1)
        }
      else if pm = snd master then
        do {
          m \<leftarrow> deref (fst master, pm);
          if m = CHR ''*'' then Some 0
          else if pc = snd can then
            do {
              c \<leftarrow> deref (fst can, pc);
              if tolower (char_int c) = tolower (char_int m) then Some 0 else Some 1
            }
          else Some 1
        }
      else Some 1)"
  by pat_completeness auto
termination
  by (relation "measure (\<lambda>(can, master, pc, pm). nat (pc - snd can))") auto

definition hacl_match :: "cptr \<Rightarrow> cptr \<Rightarrow> int option" where
  "hacl_match can master = do {
     lc \<leftarrow> strlen can;
     lm \<leftarrow> strlen master;
     hacl_scan can master (snd can + lc - 1) (snd master + lm - 1)
   }"

subsection \<open>\<open>user_match\<close>\<close>

text \<open>
  The \<open>do ... while\<close> loop of \<open>user_match\<close> advances both pointers together, so one
  offset \<open>i\<close> serves for both.  The loop tests \<open>*master\<close> only after the increment:
  entered with \<open>master\<close> at its terminator and \<open>can\<close> at its own, it steps behind
  both.
\<close>

function user_match_loop :: "cptr \<Rightarrow> cptr \<Rightarrow> int \<Rightarrow> int option" where
  "user_match_loop can master i =
     do {
       m \<leftarrow> deref (ptr_add master i);
       c \<leftarrow> deref (ptr_add can i);
       if m \<noteq> c then Some 1
       else do {
         m' \<leftarrow> deref (ptr_add master (i + 1));
         if m' \<noteq> CHR ''@'' \<and> m' \<noteq> NUL then user_match_loop can master (i + 1)
         else if m' = NUL then
           do {
             c' \<leftarrow> deref (ptr_add can (i + 1));
             if c' = NUL \<or> c' = CHR ''@'' then Some 0 else Some 1
           }
         else
           do {
             c' \<leftarrow> deref (ptr_add can (i + 1));
             if c' \<noteq> CHR ''@'' then Some 1
             else hacl_match (ptr_add can (i + 2)) (ptr_add master (i + 2))
           }
       }
     }"
  by pat_completeness auto
termination
proof (relation "measure (\<lambda>(can, master, i). nat (int (length (fst master)) - (snd master + i)))")
  show "wf (measure (\<lambda>(can, master, i). nat (int (length (fst master)) - (snd master + i))))"
    by simp
next
  fix can master :: cptr and i :: int and m c m' :: char
  assume "deref (ptr_add master (i + 1)) = Some m'" and "m' \<noteq> CHR ''@'' \<and> m' \<noteq> NUL"
  then have "snd master + (i + 1) < int (length (fst master))"
    by (auto simp: deref_def ptr_add_def split: if_splits)
  then show "((can, master, i + 1), (can, master, i))
      \<in> measure (\<lambda>(can, master, i). nat (int (length (fst master)) - (snd master + i)))"
    by simp
qed

definition user_match :: "cptr \<Rightarrow> cptr \<Rightarrow> int option" where
  "user_match can master = user_match_loop can master 0"

subsection \<open>\<open>sacl_match\<close>\<close>

text \<open>
  \<open>inet_pton\<close> for \<open>AF_INET\<close>, \<open>ntohl\<close> and \<open>atoi\<close> belong to the C library.
  \<open>inet_pton4_loop\<close> follows the GNU C library: four decimal numbers of at most 255,
  separated by single dots, no leading zero, nothing else.  Its state is the rest of the
  text, \<open>saw_digit\<close>, \<open>octets\<close> and the bytes written so far, the one under \<open>tp\<close>
  first.  The result is the four bytes in network order, or \<open>None\<close> where
  \<open>inet_pton\<close> returns 0.
\<close>

definition isdigit :: "char \<Rightarrow> bool" where
  "isdigit c = (48 \<le> (of_char c :: nat) \<and> (of_char c :: nat) \<le> 57)"

definition digit_val :: "char \<Rightarrow> nat" where
  "digit_val c = (of_char c :: nat) - 48"

fun inet_pton4_loop :: "string \<Rightarrow> bool \<Rightarrow> nat \<Rightarrow> nat list \<Rightarrow> nat list option" where
  "inet_pton4_loop [] saw_digit octets tmp = (if octets < 4 then None else Some (rev tmp))"
| "inet_pton4_loop (ch # src) saw_digit octets tmp =
     (if isdigit ch then
        (let new = hd tmp * 10 + digit_val ch in
         if saw_digit \<and> hd tmp = 0 then None
         else if new > 255 then None
         else if \<not> saw_digit then
           (if octets + 1 > 4 then None
            else inet_pton4_loop src True (octets + 1) (new # tl tmp))
         else inet_pton4_loop src saw_digit octets (new # tl tmp))
      else if ch = CHR ''.'' \<and> saw_digit then
        (if octets = 4 then None else inet_pton4_loop src False octets (0 # tmp))
      else None)"

definition inet_pton :: "string \<Rightarrow> nat list option" where
  "inet_pton src = inet_pton4_loop src False 0 [0]"

text \<open>\<open>ntohl (addr.s_addr)\<close>: the four bytes read as one number, the first byte highest.\<close>

definition ntohl_s_addr :: "nat list \<Rightarrow> 32 word" where
  "ntohl_s_addr bs = foldl (\<lambda>w b. push_bit 8 w OR of_nat b) 0 bs"

text \<open>
  \<open>atoi\<close> is \<open>(int) strtol (s, NULL, 10)\<close>: white space, one optional sign, the
  digits that follow, and the rest of the text ignored; \<open>strtol\<close> stops at the ends of
  a 64-bit \<open>long\<close> and the conversion to \<open>int\<close> keeps the low 32 bits.
\<close>

definition isspace :: "char \<Rightarrow> bool" where
  "isspace c = ((of_char c :: nat) = 32 \<or> (9 \<le> (of_char c :: nat) \<and> (of_char c :: nat) \<le> 13))"

definition digits_val :: "string \<Rightarrow> int" where
  "digits_val ds = foldl (\<lambda>a c. a * 10 + int (digit_val c)) 0 ds"

definition strtol :: "string \<Rightarrow> int" where
  "strtol s =
     (let s1 = dropWhile isspace s;
          neg = (s1 \<noteq> [] \<and> hd s1 = CHR ''-'');
          s2 = (if s1 \<noteq> [] \<and> (hd s1 = CHR ''-'' \<or> hd s1 = CHR ''+'') then tl s1 else s1);
          v = digits_val (takeWhile isdigit s2);
          r = (if neg then - v else v)
      in max (- (2 ^ 63)) (min (2 ^ 63 - 1) r))"

definition atoi :: "string \<Rightarrow> int" where
  "atoi s = sint (word_of_int (strtol s) :: 32 word)"

text \<open>\<open>strchr (s, c)\<close> for a byte \<open>c\<close> other than NUL: the offset of the first \<open>c\<close>.\<close>

definition strchr :: "string \<Rightarrow> char \<Rightarrow> nat option" where
  "strchr s c = (if c \<in> set s then Some (length (takeWhile (\<lambda>x. x \<noteq> c) s)) else None)"

text \<open>
  \<open>sacl_match\<close> reads both strings forward from their starts only, so it takes the
  byte lists.  \<open>maxip\<close> is the value of the macro \<open>PBS_MAXIP_LEN\<close>, which another
  header of the server defines.
\<close>

text \<open>\<open>short_mask ? ~0 << (32 - short_mask) : 0\<close>, stored in a \<open>uint32_t\<close>.\<close>

definition prefix_mask :: "int \<Rightarrow> 32 word" where
  "prefix_mask short_mask =
     (if short_mask \<noteq> 0 then push_bit (nat (32 - short_mask)) (- 1) else 0)"

definition sacl_match :: "nat \<Rightarrow> string \<Rightarrow> string \<Rightarrow> int" where
  "sacl_match maxip can master =
     (case inet_pton can of
        None \<Rightarrow> 1
      | Some addr \<Rightarrow>
          let ip = ntohl_s_addr addr in
          (case strchr master CHR ''/'' of
             None \<Rightarrow> 1
           | Some len \<Rightarrow>
               let rest = drop (len + 1) master in
               if rest = [] then 1
               else if len > maxip then 1
               else
                 (case inet_pton (take len master) of
                    None \<Rightarrow> 1
                  | Some saddr \<Rightarrow>
                      let subnet = ntohl_s_addr saddr in
                      if strchr rest CHR ''.'' \<noteq> None then
                        (case inet_pton rest of
                           None \<Rightarrow> 1
                         | Some maddr \<Rightarrow>
                             let mask = ntohl_s_addr maddr in
                             if mask = 0 then 1
                             else if ip AND mask = subnet AND mask then 0 else 1)
                      else
                        (let short_mask = atoi rest in
                         if short_mask < 0 \<or> short_mask > 32 then 1
                         else
                           let mask = prefix_mask short_mask in
                           if mask = 0 then 1
                           else if ip AND mask = subnet AND mask then 0 else 1))))"

subsection \<open>\<open>gacl_match\<close>\<close>

text \<open>
  The group directory of the host is outside the program.  \<open>user_groups\<close> answers, for
  a user name \<open>getpwnam\<close> knows, the list \<open>getgrouplist\<close> fills, each group already
  looked up by \<open>getgrgid\<close> (\<open>None\<close> where that fails); \<open>groups_malloc_ok\<close> says
  whether the list could be allocated.  This is the build for POSIX hosts.
\<close>

record group_dir =
  user_groups :: "string \<Rightarrow> string option list option"
  groups_malloc_ok :: bool

definition gacl_match :: "group_dir \<Rightarrow> string \<Rightarrow> string \<Rightarrow> int" where
  "gacl_match gd can master =
     (case user_groups gd can of
        None \<Rightarrow> 1
      | Some grs \<Rightarrow>
          if \<not> groups_malloc_ok gd then 1
          else if Some master \<in> set grs then 0 else 1)"

section \<open>Order functions\<close>

definition skip_sign :: "cptr \<Rightarrow> cptr option" where
  "skip_sign s = do {
     c \<leftarrow> deref s;
     Some (if c = CHR ''+'' \<or> c = CHR ''-'' then ptr_add s 1 else s)
   }"

text \<open>
  The loop of \<open>host_order\<close>: \<open>s1\<close>, \<open>s2\<close> are the starts behind the sign, \<open>p1\<close>,
  \<open>p2\<close> the running offsets.  Each round reads \<open>*p1\<close> and \<open>*p2\<close> first.
\<close>

function host_order_loop :: "cptr \<Rightarrow> cptr \<Rightarrow> int \<Rightarrow> int \<Rightarrow> int option" where
  "host_order_loop s1 s2 p1 p2 =
     do {
       c2 \<leftarrow> deref (fst s2, p2);
       c1 \<leftarrow> deref (fst s1, p1);
       let d = char_int c2 - char_int c1 in
       if p1 > snd s1 \<and> p2 > snd s2 then
         (if d \<noteq> 0 then Some d else host_order_loop s1 s2 (p1 - 1) (p2 - 1))
       else if p1 = snd s1 \<and> p2 = snd s2 then
         (if c1 = CHR ''*'' then Some 1
          else if c2 = CHR ''*'' then Some (- 1)
          else Some d)
       else if p1 = snd s1 then Some 1
       else Some (- 1)
     }"
  by pat_completeness auto
termination
  by (relation "measure (\<lambda>(s1, s2, p1, p2). nat (p1 - snd s1))") auto

definition host_order :: "cptr \<Rightarrow> cptr \<Rightarrow> int option" where
  "host_order s1 s2 = do {
     s1' \<leftarrow> skip_sign s1;
     s2' \<leftarrow> skip_sign s2;
     l1 \<leftarrow> strlen s1';
     l2 \<leftarrow> strlen s2';
     host_order_loop s1' s2' (snd s1' + l1 - 1) (snd s2' + l2 - 1)
   }"

function user_order_loop :: "cptr \<Rightarrow> cptr \<Rightarrow> int option" where
  "user_order_loop s1 s2 =
     do {
       c1 \<leftarrow> deref s1;
       c2 \<leftarrow> deref s2;
       let d = char_int c1 - char_int c2 in
       if d \<noteq> 0 then Some d
       else if c1 = CHR ''@'' \<or> c1 = NUL then host_order (ptr_add s1 1) (ptr_add s2 1)
       else user_order_loop (ptr_add s1 1) (ptr_add s2 1)
     }"
  by pat_completeness auto
termination
proof (relation "measure (\<lambda>(s1, s2). nat (int (length (fst s1)) - snd s1))")
  show "wf (measure (\<lambda>(s1, s2). nat (int (length (fst s1)) - snd s1)))"
    by simp
next
  fix s1 s2 :: cptr and c1 c2 :: char and d :: int
  assume "deref s1 = Some c1" and "\<not> (c1 = CHR ''@'' \<or> c1 = NUL)"
  then have "snd s1 < int (length (fst s1))"
    by (cases s1) (auto simp: deref_def split: if_splits)
  then show "((ptr_add s1 1, ptr_add s2 1), (s1, s2))
      \<in> measure (\<lambda>(s1, s2). nat (int (length (fst s1)) - snd s1))"
    by (simp add: ptr_add_def)
qed

definition user_order :: "cptr \<Rightarrow> cptr \<Rightarrow> int option" where
  "user_order s1 s2 = do {
     s1' \<leftarrow> skip_sign s1;
     s2' \<leftarrow> skip_sign s2;
     user_order_loop s1' s2'
   }"

definition group_order :: "cptr \<Rightarrow> cptr \<Rightarrow> int option" where
  "group_order s1 s2 = do {
     s1' \<leftarrow> skip_sign s1;
     s2' \<leftarrow> skip_sign s2;
     strcmp s1' s2'
   }"

section \<open>The array of strings of an attribute\<close>

text \<open>
  \<open>struct array_strings\<close> is declared in a header outside these sources; the fields
  are the ones the functions here use.  \<open>as_buf\<close> is the allocated block (\<open>None\<close> for
  a null pointer), \<open>as_next\<close> and the slots of \<open>as_string\<close> are pointers into that
  block, kept as offsets from its start, so that moving the block (\<open>realloc\<close>) leaves
  them as they are and the source's re-basing (\<open>as_string[j] += offset\<close>) changes
  nothing.  A slot that is \<open>None\<close> holds a null or an indeterminate pointer;
  \<open>as_next\<close> is \<open>None\<close> where it points at a block that has been freed, and
  offset 0 beside a null \<open>as_buf\<close> is the null pointer.
\<close>

record array_strings =
  as_npointers :: nat
  as_usedptr :: nat
  as_bufsize :: nat
  as_buf :: "char list option"
  as_next :: "int option"
  as_string :: "int option list"

datatype vflag = ATR_VFLAG_SET | ATR_VFLAG_MODIFY | ATR_VFLAG_MODCACHE

record attribute =
  at_flags :: "vflag set"
  at_arst :: "array_strings option"

text \<open>
  The C string a pointer into a block addresses: the bytes up to the first NUL.  Where the
  block holds no NUL from there on, a reader (\<open>strcmp\<close>, \<open>strlen\<close>, a match or
  order function) runs off the block.
\<close>

definition c_string :: "char list \<Rightarrow> int \<Rightarrow> string option" where
  "c_string b p =
     (if 0 \<le> p \<and> NUL \<in> set (drop (nat p) b)
      then Some (takeWhile (\<lambda>c. c \<noteq> NUL) (drop (nat p) b)) else None)"

definition get_string :: "array_strings \<Rightarrow> nat \<Rightarrow> string option" where
  "get_string pas i =
     (if i < length (as_string pas) then
        (case (as_string pas ! i, as_buf pas) of
           (Some p, Some b) \<Rightarrow> c_string b p
         | _ \<Rightarrow> None)
      else None)"

text \<open>The strings in use, in stored order.\<close>

definition as_strings :: "array_strings \<Rightarrow> string list option" where
  "as_strings pas =
     (if \<forall>i \<in> {0 ..< as_usedptr pas}. get_string pas i \<noteq> None
      then Some (map (\<lambda>i. the (get_string pas i)) [0 ..< as_usedptr pas]) else None)"

section \<open>\<open>acl_check\<close>\<close>

datatype acl_type = ACL_Host | ACL_User | ACL_Group | ACL_Subnet | ACL_Generic

text \<open>
  \<open>ACL_Generic\<close> stands for every type code the \<open>switch\<close> sends to \<open>default\<close>.
  What the function takes from its surroundings: the build flag
  \<open>HOST_ACL_DEFAULT_ALL\<close>, the global \<open>server_host\<close>, the macro
  \<open>PBS_MAXIP_LEN\<close> and the group directory.
\<close>

record acl_env =
  HOST_ACL_DEFAULT_ALL :: bool
  server_host :: string
  PBS_MAXIP_LEN :: nat
  group_directory :: group_dir

definition match_func :: "acl_env \<Rightarrow> acl_type \<Rightarrow> cptr \<Rightarrow> cptr \<Rightarrow> int option" where
  "match_func env type name master =
     (case type of
        ACL_Host \<Rightarrow> hacl_match name master
      | ACL_User \<Rightarrow> user_match name master
      | ACL_Group \<Rightarrow>
          do { c \<leftarrow> bytes_at name; m \<leftarrow> bytes_at master;
               Some (gacl_match (group_directory env) c m) }
      | ACL_Subnet \<Rightarrow>
          do { c \<leftarrow> bytes_at name; m \<leftarrow> bytes_at master;
               Some (sacl_match (PBS_MAXIP_LEN env) c m) }
      | ACL_Generic \<Rightarrow> strcmp name master)"

text \<open>
  The \<open>for\<close> loop of \<open>acl_check\<close> from index \<open>i\<close> on, with the running
  \<open>default_rtn\<close>.
\<close>

function acl_check_loop ::
  "(cptr \<Rightarrow> cptr \<Rightarrow> int option) \<Rightarrow> array_strings \<Rightarrow> string \<Rightarrow> nat \<Rightarrow> int \<Rightarrow> int option"
where
  "acl_check_loop mf pas name i default_rtn =
     (if i < as_usedptr pas then
        do {
          e \<leftarrow> get_string pas i;
          c0 \<leftarrow> deref (e, 0);
          let sign = (c0 = CHR ''+'' \<or> c0 = CHR ''-'');
              bare = (sign \<and> deref (e, 1) = Some NUL);
              default_rtn' = (if bare then (if c0 = CHR ''+'' then 1 else 0) else default_rtn);
              pstr = (if sign then (e, 1) else (e, 0)) in
          do {
            r \<leftarrow> mf (name, 0) pstr;
            if r = 0 then (if c0 = CHR ''-'' then Some 0 else Some 1)
            else acl_check_loop mf pas name (i + 1) default_rtn'
          }
        }
      else Some default_rtn)"
  by pat_completeness auto
termination
  by (relation "measure (\<lambda>(mf, pas, name, i, d). as_usedptr pas - i)") auto

definition acl_check :: "acl_env \<Rightarrow> attribute \<Rightarrow> string option \<Rightarrow> acl_type \<Rightarrow> int option" where
  "acl_check env pattr name type =
     (let default_rtn = (if HOST_ACL_DEFAULT_ALL env then 1 else 0 :: int) in
      case name of
        None \<Rightarrow> Some default_rtn
      | Some nm \<Rightarrow>
          if ATR_VFLAG_SET \<notin> at_flags pattr \<or> at_arst pattr = None
             \<or> as_usedptr (the (at_arst pattr)) = 0 then
            (if HOST_ACL_DEFAULT_ALL env then Some 1
             else if type = ACL_Host then
               do { r \<leftarrow> hacl_match (nm, 0) (server_host env, 0);
                    Some (if r = 0 then 1 else 0) }
             else Some 0)
          else acl_check_loop (match_func env type) (the (at_arst pattr)) nm 0 default_rtn)"

section \<open>\<open>set_allacl\<close>\<close>

text \<open>
  \<open>enum batch_op\<close> and the error numbers come from headers outside these sources; the
  datatypes list the operators of the enumeration and the three errors \<open>set_allacl\<close>
  returns.
\<close>

datatype batch_op = SET | UNSET | INCR | DECR | EQ | NE | GE | GT | LE | LT | DFLT

datatype pbs_error = PBSE_INTERNAL | PBSE_SYSTEM | PBSE_DUPLIST

text \<open>
  The allocator is outside the program: one answer for each of the four places where
  \<open>set_allacl\<close> asks for memory (each is reached at most once in a call), and the
  bytes a fresh block happens to hold.
\<close>

record allocator =
  malloc_pas_ok :: bool
  malloc_buf_ok :: bool
  realloc_buf_ok :: bool
  realloc_pas_ok :: bool
  fresh_byte :: "nat \<Rightarrow> char"

definition fresh_bytes :: "allocator \<Rightarrow> nat \<Rightarrow> char list" where
  "fresh_bytes al n = map (fresh_byte al) [0 ..< n]"

text \<open>Reads and writes of single bytes, and the three C library calls, inside one block.\<close>

definition rd :: "char list \<Rightarrow> int \<Rightarrow> char option" where
  "rd b p = (if 0 \<le> p \<and> p < int (length b) then Some (b ! nat p) else None)"

definition wr :: "char list \<Rightarrow> int \<Rightarrow> char \<Rightarrow> char list option" where
  "wr b p c = (if 0 \<le> p \<and> p < int (length b) then Some (b[nat p := c]) else None)"

definition strcpy :: "char list \<Rightarrow> int \<Rightarrow> string \<Rightarrow> char list option" where
  "strcpy b dst s =
     (if 0 \<le> dst \<and> nat dst + length s + 1 \<le> length b
      then Some (take (nat dst) b @ s @ [NUL] @ drop (nat dst + length s + 1) b)
      else None)"

definition memmove :: "char list \<Rightarrow> int \<Rightarrow> int \<Rightarrow> int \<Rightarrow> char list option" where
  "memmove b dst src n =
     (if 0 \<le> dst \<and> 0 \<le> src \<and> 0 \<le> n \<and> src + n \<le> int (length b) \<and> dst + n \<le> int (length b)
      then Some (take (nat dst) b @ take (nat n) (drop (nat src) b) @ drop (nat (dst + n)) b)
      else None)"

definition memset_zero :: "char list option \<Rightarrow> nat \<Rightarrow> char list option option" where
  "memset_zero buf n =
     (case buf of
        None \<Rightarrow> if n = 0 then Some None else None
      | Some b \<Rightarrow> if n \<le> length b then Some (Some (replicate n NUL @ drop n b)) else None)"

text \<open>
  The control structure \<open>set_allacl\<close> makes when the attribute has none: \<open>n\<close> slots,
  none of them set.
\<close>

definition new_array :: "nat \<Rightarrow> array_strings" where
  "new_array n =
     \<lparr>as_npointers = n, as_usedptr = 0, as_bufsize = 0, as_buf = None, as_next = Some 0,
      as_string = replicate n None\<rparr>"

text \<open>
  \<open>chk_dup_acl\<close>: the outer loop over the new strings, the two inner loops over the
  new and over the old strings.
\<close>

definition chk_dup_acl :: "array_strings \<Rightarrow> array_strings \<Rightarrow> int option" where
  "chk_dup_acl old new = do {
     ns \<leftarrow> as_strings new;
     os \<leftarrow> as_strings old;
     Some (if \<exists>i \<in> {0 ..< length ns}.
                (\<exists>j \<in> {0 ..< length ns}. i \<noteq> j \<and> strcmp_bytes (ns ! i) (ns ! j) = 0)
              \<or> (\<exists>j \<in> {0 ..< length os}. strcmp_bytes (ns ! i) (os ! j) = 0)
           then 1 else 0)
   }"

subsection \<open>Adding one string\<close>

text \<open>
  The search for the place of the new string: the first \<open>j\<close> whose string the order
  function puts behind the new one.
\<close>

function find_slot ::
  "(cptr \<Rightarrow> cptr \<Rightarrow> int option) \<Rightarrow> array_strings \<Rightarrow> string \<Rightarrow> nat \<Rightarrow> nat option"
where
  "find_slot order_func pas new j =
     (if j < as_usedptr pas then
        do {
          old \<leftarrow> get_string pas j;
          d \<leftarrow> order_func (old, 0) (new, 0);
          if d > 0 then Some j else find_slot order_func pas new (j + 1)
        }
      else Some j)"
  by pat_completeness auto
termination
  by (relation "measure (\<lambda>(f, pas, new, j). as_usedptr pas - j)") auto

text \<open>\<open>while (pc >= pas->as_string[j]) { *(pc + offset) = *pc; pc--; }\<close>\<close>

function shift_up :: "char list \<Rightarrow> int \<Rightarrow> int \<Rightarrow> int \<Rightarrow> char list option" where
  "shift_up b lo offset pc =
     (if pc \<ge> lo then
        do {
          c \<leftarrow> rd b pc;
          b' \<leftarrow> wr b (pc + offset) c;
          shift_up b' lo offset (pc - 1)
        }
      else Some b)"
  by pat_completeness auto
termination
  by (relation "measure (\<lambda>(b, lo, offset, pc). nat (pc - lo + 1))") auto

text \<open>\<open>for (k = pas->as_usedptr; k > j; k--) pas->as_string[k] = pas->as_string[k - 1] + offset;\<close>\<close>

function adjust_up :: "int option list \<Rightarrow> nat \<Rightarrow> int \<Rightarrow> nat \<Rightarrow> int option list option" where
  "adjust_up ps j offset k =
     (if k > j then
        (if k < length ps
         then adjust_up (ps[k := map_option (\<lambda>p. p + offset) (ps ! (k - 1))]) j offset (k - 1)
         else None)
      else Some ps)"
  by pat_completeness auto
termination
  by (relation "measure (\<lambda>(ps, j, offset, k). k)") auto

definition set_slot :: "int option list \<Rightarrow> nat \<Rightarrow> int option \<Rightarrow> int option list option" where
  "set_slot ps j v = (if j < length ps then Some (ps[j := v]) else None)"

definition get_slot :: "int option list \<Rightarrow> nat \<Rightarrow> int option" where
  "get_slot ps j = (if j < length ps then ps ! j else None)"

text \<open>One round of the loop that puts the new strings in.\<close>

definition insert_string ::
  "(cptr \<Rightarrow> cptr \<Rightarrow> int option) \<Rightarrow> array_strings \<Rightarrow> string \<Rightarrow> array_strings option"
where
  "insert_string order_func pas new = do {
     j \<leftarrow> find_slot order_func pas new 0;
     b \<leftarrow> as_buf pas;
     nxt \<leftarrow> as_next pas;
     let offset = int (length new) + 1 in
     if j < as_usedptr pas then
       do {
         whr \<leftarrow> get_slot (as_string pas) j;
         b1 \<leftarrow> shift_up b whr offset (nxt - 1);
         ps1 \<leftarrow> adjust_up (as_string pas) j offset (as_usedptr pas);
         b2 \<leftarrow> strcpy b1 whr new;
         ps2 \<leftarrow> set_slot ps1 j (Some whr);
         Some (pas\<lparr>as_buf := Some b2, as_string := ps2,
                   as_usedptr := as_usedptr pas + 1, as_next := Some (nxt + offset)\<rparr>)
       }
     else
       do {
         b2 \<leftarrow> strcpy b nxt new;
         ps2 \<leftarrow> set_slot (as_string pas) j (Some nxt);
         Some (pas\<lparr>as_buf := Some b2, as_string := ps2,
                   as_usedptr := as_usedptr pas + 1, as_next := Some (nxt + offset)\<rparr>)
       }
   }"

fun insert_strings ::
  "(cptr \<Rightarrow> cptr \<Rightarrow> int option) \<Rightarrow> array_strings \<Rightarrow> string list \<Rightarrow> array_strings option"
where
  "insert_strings order_func pas [] = Some pas"
| "insert_strings order_func pas (new # rest) =
     do { pas' \<leftarrow> insert_string order_func pas new; insert_strings order_func pas' rest }"

subsection \<open>Removing one string\<close>

text \<open>
  \<open>for (++i; i < pas->as_npointers; i++) pas->as_string[i - 1] = pas->as_string[i] - nsize;\<close>
  and the store of the null pointer behind it; \<open>i\<close> is the index after the increment.
\<close>

function compact_ptrs :: "int option list \<Rightarrow> int \<Rightarrow> nat \<Rightarrow> nat \<Rightarrow> int option list option" where
  "compact_ptrs ps nsize i npointers =
     (if i < npointers then
        (if 0 < i \<and> i < length ps
         then compact_ptrs (ps[i - 1 := map_option (\<lambda>p. p - nsize) (ps ! i)]) nsize (i + 1) npointers
         else None)
      else if 0 < i then set_slot ps (i - 1) None else None)"
  by pat_completeness auto
termination
  by (relation "measure (\<lambda>(ps, nsize, i, npointers). npointers - i)") auto

definition remove_string :: "array_strings \<Rightarrow> nat \<Rightarrow> array_strings option" where
  "remove_string pas i = do {
     s \<leftarrow> get_string pas i;
     p \<leftarrow> get_slot (as_string pas) i;
     b \<leftarrow> as_buf pas;
     nxt \<leftarrow> as_next pas;
     let nsize = int (length s) + 1;
         pc = p + nsize;
         need = nxt - pc in
     do {
       b' \<leftarrow> memmove b p pc need;
       ps' \<leftarrow> compact_ptrs (as_string pas) nsize (i + 1) (as_npointers pas);
       Some (pas\<lparr>as_buf := Some b', as_next := Some (nxt - nsize), as_string := ps',
                 as_usedptr := as_usedptr pas - 1\<rparr>)
     }
   }"

text \<open>The inner loop of \<open>DECR\<close> for one string of the operand, from index \<open>i\<close> on.\<close>

function remove_first :: "array_strings \<Rightarrow> string \<Rightarrow> nat \<Rightarrow> array_strings option" where
  "remove_first pas new i =
     (if i < as_usedptr pas then
        do {
          s \<leftarrow> get_string pas i;
          if strcmp_bytes s new = 0 then remove_string pas i
          else remove_first pas new (i + 1)
        }
      else Some pas)"
  by pat_completeness auto
termination
  by (relation "measure (\<lambda>(pas, new, i). as_usedptr pas - i)") auto

fun remove_strings :: "array_strings \<Rightarrow> string list \<Rightarrow> array_strings option" where
  "remove_strings pas [] = Some pas"
| "remove_strings pas (new # rest) =
     do { pas' \<leftarrow> remove_first pas new 0; remove_strings pas' rest }"

subsection \<open>The three operators\<close>

text \<open>
  Each part answers the return value (\<open>None\<close> for 0) with the control structure as the
  call leaves it; the outer \<open>None\<close> is a read or write outside a block, or the use
  of a pointer to a freed block.  The strings of
  the operand are read before the loop that uses them; the operand is another object
  than the attribute, so the loop does not change them.  Sizes and counts are natural
  numbers without an upper end.  \<open>realloc\<close> keeps the bytes of the old block and adds
  fresh ones behind them.
\<close>

definition incr_part ::
  "allocator \<Rightarrow> array_strings \<Rightarrow> array_strings \<Rightarrow> (cptr \<Rightarrow> cptr \<Rightarrow> int option)
     \<Rightarrow> (pbs_error option \<times> array_strings) option"
where
  "incr_part al pas newpas order_func = do {
     dup \<leftarrow> chk_dup_acl pas newpas;
     if dup \<noteq> 0 then Some (Some PBSE_DUPLIST, pas)
     else do {
       nn \<leftarrow> as_next newpas;
       used \<leftarrow> as_next pas;
       if nn < 0 \<or> used < 0 then None
       else
         let nsize = nat nn;
             grow = (int nsize > int (as_bufsize pas) - used);
             need = as_bufsize pas + 2 * nsize;
             pas1 = (if grow
                     then pas\<lparr>as_buf := Some (case as_buf pas of
                                                 None \<Rightarrow> fresh_bytes al need
                                               | Some b \<Rightarrow> take need (b @ fresh_bytes al (need - length b))),
                              as_bufsize := need\<rparr>
                     else pas);
             j = as_usedptr pas1 + as_usedptr newpas;
             j' = 3 * j div 2;
             pas2 = (if j > as_npointers pas1
                     then pas1\<lparr>as_npointers := j',
                               as_string := as_string pas1 @ replicate (j' - length (as_string pas1)) None\<rparr>
                     else pas1) in
         if grow \<and> \<not> realloc_buf_ok al then Some (Some PBSE_SYSTEM, pas)
         else if j > as_npointers pas1 \<and> \<not> realloc_pas_ok al then Some (Some PBSE_SYSTEM, pas1)
         else do {
           ns \<leftarrow> as_strings newpas;
           pas3 \<leftarrow> insert_strings order_func pas2 ns;
           Some (None, pas3)
         }
     }
   }"

definition set_part ::
  "allocator \<Rightarrow> array_strings \<Rightarrow> array_strings \<Rightarrow> (cptr \<Rightarrow> cptr \<Rightarrow> int option)
     \<Rightarrow> (pbs_error option \<times> array_strings) option"
where
  "set_part al pas newpas order_func =
     (if as_usedptr pas > length (as_string pas) then None
      else
        let pas1 = pas\<lparr>as_string := replicate (as_usedptr pas) None @ drop (as_usedptr pas) (as_string pas),
                       as_usedptr := 0, as_next := Some 0\<rparr> in
        if as_usedptr newpas = 0 then Some (None, pas1)
        else
        case as_next newpas of
          None \<Rightarrow> None
        | Some nn \<Rightarrow>
          if nn < 0 then None
          else
          let nsize = nat nn in
          if nsize > as_bufsize pas1 then
            (let nsize' = nsize + nsize div 2 in
             if \<not> malloc_buf_ok al
             then Some (Some PBSE_SYSTEM,
                        pas1\<lparr>as_buf := None, as_bufsize := 0,
                             as_next := (if as_buf pas = None then Some 0 else None)\<rparr>)
             else incr_part al (pas1\<lparr>as_buf := Some (fresh_bytes al nsize'), as_bufsize := nsize'\<rparr>)
                    newpas order_func)
          else
            (case memset_zero (as_buf pas1) (as_bufsize pas1) of
               None \<Rightarrow> None
             | Some buf \<Rightarrow> incr_part al (pas1\<lparr>as_buf := buf\<rparr>) newpas order_func))"

definition decr_part :: "array_strings \<Rightarrow> array_strings \<Rightarrow> (pbs_error option \<times> array_strings) option" where
  "decr_part pas newpas = do {
     ns \<leftarrow> as_strings newpas;
     pas' \<leftarrow> remove_strings pas ns;
     Some (None, pas')
   }"

text \<open>
  Modelled from the spec: \<open>post_attr_set\<close>, which another file of the library defines.
  The spec says of it that a successful mutation notifies the attribute of the changed
  value; the model marks the attribute as set and modified.
\<close>

definition post_attr_set :: "attribute \<Rightarrow> attribute" where
  "post_attr_set attr =
     attr\<lparr>at_flags := at_flags attr \<union> {ATR_VFLAG_SET, ATR_VFLAG_MODIFY, ATR_VFLAG_MODCACHE}\<rparr>"

text \<open>
  \<open>set_allacl\<close>.  The result is the return value (\<open>None\<close> for 0) and the attribute as
  the call leaves it, also where the call fails.  The outer \<open>None\<close> stands for the
  failed assertion on the operand and for any read or write outside an object.
\<close>

definition set_allacl ::
  "allocator \<Rightarrow> attribute \<Rightarrow> attribute \<Rightarrow> batch_op \<Rightarrow> (cptr \<Rightarrow> cptr \<Rightarrow> int option)
     \<Rightarrow> (pbs_error option \<times> attribute) option"
where
  "set_allacl al attr new op order_func =
     (if ATR_VFLAG_SET \<notin> at_flags new then None
      else
        case at_arst new of
          None \<Rightarrow> Some (Some PBSE_INTERNAL, attr)
        | Some newpas \<Rightarrow>
            if at_arst attr = None \<and> \<not> malloc_pas_ok al then Some (Some PBSE_SYSTEM, attr)
            else
              let pas = (case at_arst attr of
                           None \<Rightarrow> new_array (as_npointers newpas)
                         | Some pas \<Rightarrow> pas);
                  r = (case op of
                         SET \<Rightarrow> set_part al pas newpas order_func
                       | INCR \<Rightarrow> incr_part al pas newpas order_func
                       | DECR \<Rightarrow> decr_part pas newpas
                       | _ \<Rightarrow> Some (Some PBSE_INTERNAL, pas)) in
              (case r of
                 None \<Rightarrow> None
               | Some (None, pas') \<Rightarrow> Some (None, post_attr_set (attr\<lparr>at_arst := Some pas'\<rparr>))
               | Some (Some e, pas') \<Rightarrow> Some (Some e, attr\<lparr>at_arst := Some pas'\<rparr>)))"

definition set_uacl :: "allocator \<Rightarrow> attribute \<Rightarrow> attribute \<Rightarrow> batch_op
    \<Rightarrow> (pbs_error option \<times> attribute) option" where
  "set_uacl al attr new op = set_allacl al attr new op user_order"

definition set_gacl :: "allocator \<Rightarrow> attribute \<Rightarrow> attribute \<Rightarrow> batch_op
    \<Rightarrow> (pbs_error option \<times> attribute) option" where
  "set_gacl al attr new op = set_allacl al attr new op group_order"

definition set_hostacl :: "allocator \<Rightarrow> attribute \<Rightarrow> attribute \<Rightarrow> batch_op
    \<Rightarrow> (pbs_error option \<times> attribute) option" where
  "set_hostacl al attr new op = set_allacl al attr new op host_order"

section \<open>Well-formed arrays\<close>

text \<open>
  The layout the decoder of the attribute produces and \<open>set_allacl\<close> keeps: the strings
  lie in the block one behind the other from its start, each with its terminator, the
  used slots point at them in that order, and \<open>as_next\<close> points behind the last.
  \<open>packed pas es\<close> says that \<open>pas\<close> holds the strings \<open>es\<close> in this layout;
  \<open>array_of es\<close> is the smallest such array.
\<close>

definition flat :: "string list \<Rightarrow> char list" where
  "flat es = concat (map (\<lambda>e. e @ [NUL]) es)"

definition offsets :: "string list \<Rightarrow> int list" where
  "offsets es = map (\<lambda>i. int (length (flat (take i es)))) [0 ..< length es]"

definition packed :: "array_strings \<Rightarrow> string list \<Rightarrow> bool" where
  "packed pas es \<longleftrightarrow>
     as_usedptr pas = length es \<and>
     length (as_string pas) = as_npointers pas \<and>
     length es \<le> as_npointers pas \<and>
     list_all (\<lambda>e. NUL \<notin> set e) es \<and>
     as_next pas = Some (int (length (flat es))) \<and>
     (case as_buf pas of
        None \<Rightarrow> es = [] \<and> as_bufsize pas = 0
      | Some b \<Rightarrow> length b = as_bufsize pas \<and> length (flat es) \<le> length b
                  \<and> take (length (flat es)) b = flat es) \<and>
     take (length es) (as_string pas) = map Some (offsets es)"

definition array_of :: "string list \<Rightarrow> array_strings" where
  "array_of es =
     \<lparr>as_npointers = length es, as_usedptr = length es, as_bufsize = length (flat es),
      as_buf = Some (flat es), as_next = Some (int (length (flat es))),
      as_string = map Some (offsets es)\<rparr>"

text \<open>An attribute that is set and holds the strings \<open>es\<close>, and its strings read back.\<close>

definition attr_of :: "string list \<Rightarrow> attribute" where
  "attr_of es = \<lparr>at_flags = {ATR_VFLAG_SET}, at_arst = Some (array_of es)\<rparr>"

definition attr_strings :: "attribute \<Rightarrow> string list option" where
  "attr_strings attr = (case at_arst attr of None \<Rightarrow> Some [] | Some pas \<Rightarrow> as_strings pas)"

definition holds :: "attribute \<Rightarrow> string list \<Rightarrow> bool" where
  "holds attr es = (case at_arst attr of None \<Rightarrow> es = [] | Some pas \<Rightarrow> packed pas es)"


text \<open>An allocator that never fails.\<close>

definition alloc_ok :: "allocator \<Rightarrow> bool" where
  "alloc_ok al \<longleftrightarrow> malloc_pas_ok al \<and> malloc_buf_ok al \<and> realloc_buf_ok al \<and> realloc_pas_ok al"

definition good_alloc :: allocator where
  "good_alloc = \<lparr>malloc_pas_ok = True, malloc_buf_ok = True, realloc_buf_ok = True,
                 realloc_pas_ok = True, fresh_byte = (\<lambda>_. CHR ''?'')\<rparr>"

section \<open>Notions the statements use\<close>

text \<open>
  \<open>lower\<close> is the key \<open>hacl_match\<close> compares two bytes by.  \<open>star_match\<close>: the
  pattern begins with \<open>*\<close> and the rest of the pattern, if there is any, equals the end
  of a longer candidate.  \<open>same_text\<close>: the two strings are the same up to the case of
  letters.
\<close>

definition lower :: "char \<Rightarrow> int" where
  "lower c = tolower (char_int c)"

definition star_match :: "string \<Rightarrow> string \<Rightarrow> bool" where
  "star_match can master \<longleftrightarrow>
     master \<noteq> [] \<and> hd master = CHR ''*'' \<and>
     (tl master = [] \<or>
      (length (tl master) < length can \<and>
       map lower (drop (length can - length (tl master)) can) = map lower (tl master)))"

definition same_text :: "string \<Rightarrow> string \<Rightarrow> bool" where
  "same_text can master \<longleftrightarrow> map lower can = map lower master"


definition leading_ones :: "nat \<Rightarrow> 32 word" where
  "leading_ones n = word_of_nat (2 ^ 32 - 2 ^ (32 - n))"






text \<open>
  An entry of the list without its sign, the pointer \<open>acl_check\<close> hands to the match
  function for it, and the running default behind it.
\<close>

definition strip_sign :: "string \<Rightarrow> string" where
  "strip_sign e = (if e \<noteq> [] \<and> (hd e = CHR ''+'' \<or> hd e = CHR ''-'') then tl e else e)"

definition entry_ptr :: "string \<Rightarrow> cptr" where
  "entry_ptr e = (if e \<noteq> [] \<and> (hd e = CHR ''+'' \<or> hd e = CHR ''-'') then (e, 1) else (e, 0))"

definition next_default :: "string \<Rightarrow> int \<Rightarrow> int" where
  "next_default e d = (if e = ''+'' then 1 else if e = ''-'' then 0 else d)"

text \<open>
  The loop of \<open>acl_check\<close> on the list of entries: \<open>decision e\<close> is the answer where
  the entry \<open>e\<close> matches, \<open>scan_entries\<close> is the loop for the match function \<open>mf\<close>
  and the running default \<open>d\<close>.
\<close>

definition decision :: "string \<Rightarrow> int" where
  "decision e = (if e \<noteq> [] \<and> hd e = CHR ''-'' then 0 else 1)"

fun scan_entries :: "(cptr \<Rightarrow> cptr \<Rightarrow> int option) \<Rightarrow> string \<Rightarrow> string list \<Rightarrow> int \<Rightarrow> int option" where
  "scan_entries mf name [] d = Some d"
| "scan_entries mf name (e # es) d =
     do { r \<leftarrow> mf (name, 0) (entry_ptr e);
          if r = 0 then Some (decision e) else scan_entries mf name es (next_default e d) }"

text \<open>
  The scan as the specification words it.  \<open>spec_scan\<close>: an entry that is a bare sign
  sets the running default and the scan goes on, no match is attempted against it; any
  other entry is handed to the match function without its sign.  \<open>generic_scan\<close>, for
  a type without a match function of its own: an entry decides exactly when the candidate
  equals its text behind the sign.
\<close>

fun spec_scan :: "(cptr \<Rightarrow> cptr \<Rightarrow> int option) \<Rightarrow> string \<Rightarrow> string list \<Rightarrow> int \<Rightarrow> int option" where
  "spec_scan mf name [] d = Some d"
| "spec_scan mf name (e # es) d =
     (if e = ''+'' \<or> e = ''-'' then spec_scan mf name es (if e = ''+'' then 1 else 0)
      else do { r \<leftarrow> mf (name, 0) (entry_ptr e);
                if r = 0 then Some (decision e) else spec_scan mf name es d })"

fun generic_scan :: "string \<Rightarrow> string list \<Rightarrow> int \<Rightarrow> int" where
  "generic_scan name [] d = d"
| "generic_scan name (e # es) d =
     (if name = strip_sign e then decision e else generic_scan name es (next_default e d))"

definition plain_env :: acl_env where
  "plain_env =
     \<lparr>HOST_ACL_DEFAULT_ALL = False, server_host = ''server'', PBS_MAXIP_LEN = 15,
      group_directory = \<lparr>user_groups = (\<lambda>u. None), groups_malloc_ok = True\<rparr>\<rparr>"

text \<open>
  The operators on plain lists of entries.  \<open>offs a es\<close> are the offsets of the strings
  \<open>es\<close> where they lie one behind the other from offset \<open>a\<close>.  \<open>ins_pos f es new\<close>
  is the slot \<open>insert_string\<close> finds for \<open>new\<close>: the first entry the order function
  \<open>f\<close> puts behind it, or the end of the list; it is \<open>None\<close> where \<open>f\<close> reads
  outside a string.  \<open>ins_one\<close> puts the string there, \<open>ins_all\<close> does so for the
  strings of an operand in their order.
\<close>

fun offs :: "nat \<Rightarrow> string list \<Rightarrow> int list" where
  "offs a [] = []"
| "offs a (e # es) = int a # offs (a + length e + 1) es"

fun ins_pos :: "(cptr \<Rightarrow> cptr \<Rightarrow> int option) \<Rightarrow> string list \<Rightarrow> string \<Rightarrow> nat option" where
  "ins_pos f [] new = Some 0"
| "ins_pos f (e # es) new =
     do { d \<leftarrow> f (e, 0) (new, 0);
          if d > 0 then Some 0 else map_option Suc (ins_pos f es new) }"

definition ins_one :: "(cptr \<Rightarrow> cptr \<Rightarrow> int option) \<Rightarrow> string list \<Rightarrow> string \<Rightarrow> string list option" where
  "ins_one f es new = map_option (\<lambda>j. take j es @ new # drop j es) (ins_pos f es new)"

fun ins_all :: "(cptr \<Rightarrow> cptr \<Rightarrow> int option) \<Rightarrow> string list \<Rightarrow> string list \<Rightarrow> string list option" where
  "ins_all f es [] = Some es"
| "ins_all f es (new # rest) = do { es' \<leftarrow> ins_one f es new; ins_all f es' rest }"

text \<open>
  \<open>rem_all es ns\<close>: each string of the operand \<open>ns\<close> in turn removes the first entry
  equal to it, if there is one.  \<open>dup_in es ns\<close>: a string is twice in the operand, or
  in the operand and in the list.
\<close>

definition rem_all :: "string list \<Rightarrow> string list \<Rightarrow> string list" where
  "rem_all es ns = foldl (\<lambda>xs n. remove1 n xs) es ns"

definition dup_in :: "string list \<Rightarrow> string list \<Rightarrow> bool" where
  "dup_in es ns \<longleftrightarrow> \<not> distinct ns \<or> set ns \<inter> set es \<noteq> {}"

text \<open>
  The array \<open>set_allacl\<close> works on, which is a fresh one where the attribute has none,
  and the way it ends: the array is stored back, and \<open>post_attr_set\<close> runs where no
  error is reported.
\<close>

definition start_array :: "attribute \<Rightarrow> array_strings \<Rightarrow> array_strings" where
  "start_array attr newpas =
     (case at_arst attr of None \<Rightarrow> new_array (as_npointers newpas) | Some pas \<Rightarrow> pas)"

definition finish :: "attribute \<Rightarrow> (pbs_error option \<times> array_strings) option
    \<Rightarrow> (pbs_error option \<times> attribute) option" where
  "finish attr r =
     (case r of
        None \<Rightarrow> None
      | Some (None, pas') \<Rightarrow> Some (None, post_attr_set (attr\<lparr>at_arst := Some pas'\<rparr>))
      | Some (Some e, pas') \<Rightarrow> Some (Some e, attr\<lparr>at_arst := Some pas'\<rparr>))"

text \<open>
  The error code and the entries of a result; an allocator that cannot make the block
  longer, one that cannot give a new block, one that cannot give the array itself; an
  attribute that has no array.
\<close>

definition outcome :: "(pbs_error option \<times> attribute) option \<Rightarrow> (pbs_error option \<times> string list option) option" where
  "outcome r = map_option (\<lambda>(e, attr). (e, attr_strings attr)) r"

definition no_buf_alloc :: allocator where
  "no_buf_alloc = good_alloc\<lparr>realloc_buf_ok := False\<rparr>"

definition no_block_alloc :: allocator where
  "no_block_alloc = good_alloc\<lparr>malloc_buf_ok := False\<rparr>"

definition no_pas_alloc :: allocator where
  "no_pas_alloc = good_alloc\<lparr>malloc_pas_ok := False\<rparr>"

definition unset_attr :: attribute where
  "unset_attr = \<lparr>at_flags = {}, at_arst = None\<rparr>"

text \<open>
  The backward scan of \<open>hacl_match\<close> on the reversed strings: \<open>hm rc rm\<close> for the
  reversed candidate and the reversed pattern.
\<close>

fun hm :: "string \<Rightarrow> string \<Rightarrow> bool" where
  "hm rc [] = False"
| "hm rc [y] = (y = CHR ''*'' \<or> (\<exists>x. rc = [x] \<and> lower x = lower y))"
| "hm [] (y # y' # ys) = False"
| "hm [x] (y # y' # ys) = False"
| "hm (x # x' # xs) (y # y' # ys) = (lower x = lower y \<and> hm (x' # xs) (y' # ys))"

text \<open>
  The number of bytes \<open>inet_pton4_loop\<close> can still accept: \<open>saw\<close> says that the
  octet under way has a digit, \<open>octets\<close> counts the octets begun, and \<open>v\<close> is the value
  of the octet under way.
\<close>

fun room :: "bool \<Rightarrow> nat \<Rightarrow> nat \<Rightarrow> nat" where
  "room saw octets v =
     (if saw then (if v = 0 then 0 else if v < 10 then 2 else if v < 26 then 1 else 0) + (4 - octets) * 4
      else 3 + (3 - octets) * 4)"

section \<open>Basic facts\<close>

declare hacl_scan.simps [simp del] user_match_loop.simps [simp del] host_order_loop.simps [simp del]
  user_order_loop.simps [simp del] acl_check_loop.simps [simp del] find_slot.simps [simp del]
  shift_up.simps [simp del] adjust_up.simps [simp del] compact_ptrs.simps [simp del]
  remove_first.simps [simp del]

subsection \<open>Reading a packed array\<close>

lemma flat_Nil [simp]: "flat [] = []"
  by (simp add: flat_def)

lemma flat_Cons [simp]: "flat (e # es) = e @ NUL # flat es"
  by (simp add: flat_def)

lemma flat_append [simp]: "flat (xs @ ys) = flat xs @ flat ys"
  by (simp add: flat_def)

lemma flat_split:
  "i < length es \<Longrightarrow> flat es = flat (take i es) @ es ! i @ NUL # flat (drop (Suc i) es)"
proof -
  assume "i < length es"
  then have "es = take i es @ es ! i # drop (Suc i) es"
    by (simp add: id_take_nth_drop)
  then have "flat es = flat (take i es @ es ! i # drop (Suc i) es)" by simp
  then show ?thesis by (simp del: append_take_drop_id)
qed

lemma c_string_at:
  assumes "b = pre @ e @ NUL # post" "NUL \<notin> set e"
  shows "c_string b (int (length pre)) = Some e"
proof -
  have "drop (length pre) b = e @ NUL # post" using assms by simp
  moreover have "takeWhile (\<lambda>c. c \<noteq> NUL) (e @ NUL # post) = e"
    by (subst takeWhile_append2) (use assms(2) in auto)
  ultimately show ?thesis by (simp add: c_string_def)
qed

lemma packed_buf:
  assumes "packed pas es" "i < length es"
  obtains b where "as_buf pas = Some b"
    and "b = flat (take i es) @ es ! i @ NUL # flat (drop (Suc i) es) @ drop (length (flat es)) b"
proof -
  from assms obtain b where b: "as_buf pas = Some b" "take (length (flat es)) b = flat es"
    by (cases "as_buf pas") (auto simp: packed_def)
  have "b = take (length (flat es)) b @ drop (length (flat es)) b" by simp
  also have "\<dots> = flat es @ drop (length (flat es)) b" using b by simp
  also have "\<dots> = (flat (take i es) @ es ! i @ NUL # flat (drop (Suc i) es))
      @ drop (length (flat es)) b"
    using flat_split[OF assms(2)] by simp
  finally have "b = flat (take i es) @ es ! i @ NUL # flat (drop (Suc i) es)
      @ drop (length (flat es)) b"
    by (simp only: append_assoc append_Cons)
  then show ?thesis by (rule that[OF b(1)])
qed

lemma packed_slot:
  assumes "packed pas es" "i < length es"
  shows "as_string pas ! i = Some (int (length (flat (take i es))))" and "i < length (as_string pas)"
proof -
  from assms have t: "take (length es) (as_string pas) = map Some (offsets es)"
    and l: "length es \<le> length (as_string pas)"
    by (auto simp: packed_def)
  have "as_string pas ! i = take (length es) (as_string pas) ! i" using assms(2) by simp
  also have "\<dots> = Some (offsets es ! i)" using t assms(2) by (simp add: offsets_def)
  finally show "as_string pas ! i = Some (int (length (flat (take i es))))"
    using assms(2) by (simp add: offsets_def)
  show "i < length (as_string pas)" using l assms(2) by simp
qed

lemma packed_nul_free: "packed pas es \<Longrightarrow> i < length es \<Longrightarrow> NUL \<notin> set (es ! i)"
  by (auto simp: packed_def list_all_length)

lemma get_string_packed:
  assumes "packed pas es" "i < length es"
  shows "get_string pas i = Some (es ! i)"
proof -
  obtain b where b: "as_buf pas = Some b"
    "b = flat (take i es) @ es ! i @ NUL # flat (drop (Suc i) es) @ drop (length (flat es)) b"
    by (rule packed_buf[OF assms])
  have "c_string b (int (length (flat (take i es)))) = Some (es ! i)"
    by (rule c_string_at[OF b(2) packed_nul_free[OF assms]])
  then show ?thesis using packed_slot[OF assms] b(1) by (simp add: get_string_def)
qed

lemma as_strings_packed:
  assumes "packed pas es"
  shows "as_strings pas = Some es"
proof -
  have u: "as_usedptr pas = length es" using assms by (simp add: packed_def)
  have "map (\<lambda>i. the (get_string pas i)) [0 ..< length es] = es"
    by (rule nth_equalityI) (simp_all add: get_string_packed[OF assms])
  then show ?thesis using u get_string_packed[OF assms] by (simp add: as_strings_def)
qed

lemma NUL_not_sign [simp]: "NUL \<noteq> CHR ''+''" "NUL \<noteq> CHR ''-''" "CHR ''+'' \<noteq> NUL" "CHR ''-'' \<noteq> NUL"
  "NUL \<noteq> CHR ''@''" "CHR ''@'' \<noteq> NUL"
  by (simp_all add: NUL_def)

lemma packed_array_of:
  assumes "list_all (\<lambda>e. NUL \<notin> set e) es"
  shows "packed (array_of es) es"
  using assms by (simp add: packed_def array_of_def offsets_def)

section \<open>\<open>hacl_match\<close>\<close>

lemma deref_in: "0 \<le> i \<Longrightarrow> i < int (length s) \<Longrightarrow> deref (s, i) = Some (s ! nat i)"
  by (simp add: deref_def)

lemma rev_take_Suc: "n < length xs \<Longrightarrow> rev (take (Suc n) xs) = xs ! n # rev (take n xs)"
  by (simp add: take_Suc_conv_app_nth)

lemma hacl_scan_step:
  "0 < a \<Longrightarrow> 0 < b \<Longrightarrow> a < length c \<Longrightarrow> b < length m \<Longrightarrow>
   hacl_scan (c, 0) (m, 0) (int a) (int b)
     = (if lower (c ! a) \<noteq> lower (m ! b) then Some 1
        else hacl_scan (c, 0) (m, 0) (int a - 1) (int b - 1))"
  by (subst hacl_scan.simps) (simp add: deref_in lower_def)

lemma hacl_scan_stop:
  "\<not> (pc > 0 \<and> pm > 0) \<Longrightarrow>
   hacl_scan (c, 0) (m, 0) pc pm
     = (if pm = 0 then
          do { x \<leftarrow> deref (m, 0);
               if x = CHR ''*'' then Some 0
               else if pc = 0 then
                 do { y \<leftarrow> deref (c, 0); if lower y = lower x then Some 0 else Some 1 }
               else Some 1 }
        else Some 1)"
  by (subst hacl_scan.simps) (auto simp: lower_def cong: if_cong)

lemma hacl_scan_hm:
  "a \<le> length c \<Longrightarrow> b \<le> length m \<Longrightarrow>
   hacl_scan (c, 0) (m, 0) (int a - 1) (int b - 1)
     = Some (if hm (rev (take a c)) (rev (take b m)) then 0 else 1)"
proof (induction a arbitrary: b)
  case 0
  show ?case
  proof (cases b)
    case 0
    then show ?thesis by (simp add: hacl_scan_stop)
  next
    case (Suc b')
    with "0.prems" have "b' < length m" by simp
    then show ?thesis using Suc
      by (cases b') (auto simp: hacl_scan_stop deref_in rev_take_Suc)
  qed
next
  case (Suc a)
  then have a: "a < length c" by simp
  show ?case
  proof (cases b)
    case 0
    then show ?thesis by (simp add: hacl_scan_stop)
  next
    case (Suc b')
    with Suc.prems have b': "b' < length m" by simp
    show ?thesis
    proof (cases "a = 0 \<or> b' = 0")
      case True
      then show ?thesis using Suc a b'
        by (cases a; cases b') (auto simp: hacl_scan_stop deref_in rev_take_Suc)
    next
      case False
      then obtain a' b'' where ab: "a = Suc a'" "b' = Suc b''"
        by (cases a; cases b') auto
      have ih: "hacl_scan (c, 0) (m, 0) (int a - 1) (int b' - 1)
           = Some (if hm (rev (take a c)) (rev (take b' m)) then 0 else 1)"
        using Suc.IH[of b'] a b' by simp
      have step: "hacl_scan (c, 0) (m, 0) (int (Suc a) - 1) (int (Suc b') - 1)
           = (if lower (c ! a) \<noteq> lower (m ! b') then Some 1
              else hacl_scan (c, 0) (m, 0) (int a - 1) (int b' - 1))"
        using hacl_scan_step[of a b' c m] a b' ab by simp
      show ?thesis unfolding \<open>b = Suc b'\<close> step ih
        using a b' ab by (simp add: rev_take_Suc)
    qed
  qed
qed

lemma hm_char:
  "hm rc rm \<longleftrightarrow>
     (rm \<noteq> [] \<and> last rm = CHR ''*'' \<and>
        (butlast rm = [] \<or> (length (butlast rm) < length rc \<and>
            map lower (take (length (butlast rm)) rc) = map lower (butlast rm))))
     \<or> (rc \<noteq> [] \<and> map lower rc = map lower rm)"
proof (induction rc rm rule: hm.induct)
  case (1 rc)
  then show ?case by simp
next
  case (2 rc y)
  then show ?case by (cases rc) auto
next
  case (3 y y' ys)
  then show ?case by simp
next
  case (4 x y y' ys)
  then show ?case by auto
next
  case (5 x x' xs y y' ys)
  then show ?case by auto
qed

lemma hacl_match_hm:
  "hacl_match (can, 0) (master, 0) = Some (if hm (rev can) (rev master) then 0 else 1)"
  using hacl_scan_hm[of "length can" can "length master" master]
  by (simp add: hacl_match_def strlen_def bytes_at_def)

lemma hm_rev:
  "hm (rev can) (rev master) \<longleftrightarrow> star_match can master \<or> (can \<noteq> [] \<and> same_text can master)"
proof (cases master)
  case Nil
  then show ?thesis by (simp add: star_match_def same_text_def hm_char)
next
  case (Cons m ms)
  have t: "take (length ms) (rev can) = rev (drop (length can - length ms) can)"
    by (simp add: take_rev)
  have e: "map lower (rev (drop (length can - length ms) can)) = map lower (rev ms)
      \<longleftrightarrow> map lower (drop (length can - length ms) can) = map lower ms"
    by (simp add: rev_map[symmetric])
  have e2: "map lower (rev can) = map lower (rev master) \<longleftrightarrow> map lower can = map lower master"
    by (simp add: rev_map[symmetric])
  show ?thesis
    unfolding hm_char star_match_def same_text_def e2
    using Cons t e by (auto simp: butlast_append)
qed

text \<open>
  What \<open>hacl_match\<close> computes.  It always returns, and it reports a match (0) exactly
  when the pattern begins with \<open>*\<close> and the scan reaches that first byte (the bytes of
  the pattern behind the \<open>*\<close> equal, up to case, the same number of bytes at the end of
  a longer candidate, or the pattern is \<open>*\<close> alone), or when the candidate is not
  empty and both strings are the same up to case.
\<close>

theorem hacl_match_iff:
  "hacl_match (can, 0) (master, 0)
     = Some (if star_match can master \<or> (can \<noteq> [] \<and> same_text can master) then 0 else 1)"
  unfolding hacl_match_hm using hm_rev[of can master] by simp

text \<open>
  Claim C4.  For the empty candidate and the empty pattern \<open>hacl_match\<close> returns 1,
  no match, although the two strings are identical and are exhausted together with all
  bytes equal: both pointers start one byte before their strings, so the test for the
  start of the pattern fails.  \<open>user_match\<close> reaches this call for a candidate and an
  entry that both end in \<open>@\<close>, and so reports no match for two identical strings.
\<close>

theorem hacl_match_empty_pair:
  "hacl_match ([], 0) ([], 0) = Some 1
   \<and> \<not> (hacl_match ([], 0) ([], 0) = Some 0 \<longleftrightarrow> star_match [] [] \<or> same_text [] [])
   \<and> user_match (''bob@'', 0) (''bob@'', 0) = Some 1"
proof -
  have "hacl_match ([], 0) ([], 0) = Some 1" by (simp add: hacl_match_hm)
  moreover have "same_text [] []" by (simp add: same_text_def)
  moreover have "user_match (''bob@'', 0) (''bob@'', 0) = Some 1" by code_simp
  ultimately show ?thesis by simp
qed

text \<open>The pattern behind a sign, and two patterns that differ in the case of letters.\<close>

lemma deref_tl: "m \<noteq> [] \<Longrightarrow> 0 \<le> i \<Longrightarrow> deref (m, i + 1) = deref (tl m, i)"
  by (cases m) (auto simp: deref_def nat_add_distrib)

lemma hacl_scan_tl:
  assumes "m \<noteq> []"
  shows "- 1 \<le> pm \<Longrightarrow> hacl_scan can (m, 1) pc (pm + 1) = hacl_scan can (tl m, 0) pc pm"
proof (induction "nat (pm + 1)" arbitrary: pc pm)
  case 0
  then have "pm = - 1" by simp
  then show ?case
    by (simp add: hacl_scan.simps[of can "(m, 1)"] hacl_scan.simps[of can "(tl m, 0)"])
next
  case (Suc n)
  then have pm: "0 \<le> pm" by simp
  have d: "deref (m, pm + 1) = deref (tl m, pm)" by (rule deref_tl[OF assms pm])
  have d0: "deref (m, 1) = deref (tl m, 0)" using deref_tl[OF assms, of 0] by simp
  show ?case
  proof (cases "pc > snd can \<and> pm > 0")
    case True
    have ih: "hacl_scan can (m, 1) (pc - 1) (pm - 1 + 1) = hacl_scan can (tl m, 0) (pc - 1) (pm - 1)"
      using Suc.hyps(2) True by (intro Suc.hyps(1)) simp_all
    show ?thesis
      using True ih
      by (subst hacl_scan.simps, subst (2) hacl_scan.simps) (simp add: d cong: if_cong)
  next
    case False
    then show ?thesis using pm
      by (subst hacl_scan.simps, subst (2) hacl_scan.simps) (auto simp: d0 cong: if_cong)
  qed
qed

lemma hacl_match_tl:
  assumes "m \<noteq> []"
  shows "hacl_match (can, 0) (m, 1) = hacl_match (can, 0) (tl m, 0)"
proof -
  have "strlen (m, 1) = Some (int (length (tl m)))" "strlen (tl m, 0) = Some (int (length (tl m)))"
    using assms by (cases m; simp add: strlen_def bytes_at_def)+
  then show ?thesis
    using hacl_scan_tl[OF assms, of "int (length (tl m)) - 1" "(can, 0)"]
    by (simp add: hacl_match_def)
qed

lemma hacl_match_lower:
  assumes "map lower m = map lower m'" and "m \<noteq> [] \<Longrightarrow> hd m \<noteq> CHR ''*'' \<and> hd m' \<noteq> CHR ''*''"
  shows "hacl_match (can, 0) (m, 0) = hacl_match (can, 0) (m', 0)"
proof -
  have e: "m = [] \<longleftrightarrow> m' = []" using assms(1) by (metis map_is_Nil_conv)
  have "star_match can m = False" "star_match can m' = False"
    using assms(2) e by (auto simp: star_match_def)
  then show ?thesis using assms(1) by (simp add: hacl_match_hm hm_rev same_text_def)
qed

section \<open>\<open>sacl_match\<close>\<close>











text \<open>
  Two numbers agree under the mask of \<open>n\<close> leading ones exactly when their \<open>n\<close>
  highest bits agree.
\<close>

lemma leading_ones_not_mask:
  assumes "n \<le> 32"
  shows "leading_ones n = NOT (mask (32 - n))"
proof -
  define k where "k = 32 - n"
  have "(2 :: nat) ^ k \<le> 2 ^ 32" unfolding k_def by (intro power_increasing) simp_all
  then have "(word_of_nat (2 ^ 32 - 2 ^ k) :: 32 word) = word_of_nat (2 ^ 32) - word_of_nat (2 ^ k)"
    by (simp add: of_nat_diff)
  also have "\<dots> = - (2 ^ k)" by simp
  also have "\<dots> = NOT (mask k)" by (simp add: mask_eq_exp_minus_1 not_eq_complement)
  finally show ?thesis by (simp add: leading_ones_def k_def)
qed

lemma leading_ones_agree:
  fixes a b :: "32 word"
  assumes "n \<le> 32"
  shows "a AND leading_ones n = b AND leading_ones n \<longleftrightarrow> drop_bit (32 - n) a = drop_bit (32 - n) b"
proof -
  define k where "k = 32 - n"
  have "a AND NOT (mask k) = b AND NOT (mask k) \<longleftrightarrow> drop_bit k a = drop_bit k b"
  proof
    assume h: "a AND NOT (mask k) = b AND NOT (mask k)"
    have "drop_bit k (a AND NOT (mask k)) = drop_bit k a" for a :: "32 word"
      by (rule bit_word_eqI) (auto simp: bit_simps dest: bit_imp_le_length)
    with h show "drop_bit k a = drop_bit k b" by metis
  next
    assume h: "drop_bit k a = drop_bit k b"
    have "push_bit k (drop_bit k a) = a AND NOT (mask k)" for a :: "32 word"
      by (rule bit_word_eqI) (auto simp: bit_simps dest: bit_imp_le_length)
    with h show "a AND NOT (mask k) = b AND NOT (mask k)" by metis
  qed
  then show ?thesis using leading_ones_not_mask[OF assms] by (simp add: k_def)
qed











section \<open>The scan of \<open>acl_check\<close>\<close>

lemma acl_check_loop_step:
  assumes "packed pas es" "i < length es"
  shows "acl_check_loop mf pas name i d =
     do { r \<leftarrow> mf (name, 0) (entry_ptr (es ! i));
          if r = 0 then (if es ! i \<noteq> [] \<and> hd (es ! i) = CHR ''-'' then Some 0 else Some 1)
          else acl_check_loop mf pas name (i + 1) (next_default (es ! i) d) }"
proof -
  have u: "i < as_usedptr pas" using assms by (simp add: packed_def)
  have n: "NUL \<notin> set (es ! i)" by (rule packed_nul_free[OF assms])
  show ?thesis
  proof (cases "es ! i")
    case Nil
    have g: "get_string pas i = Some []" using get_string_packed[OF assms] Nil by simp
    show ?thesis using u unfolding Nil next_default_def entry_ptr_def
      by (subst acl_check_loop.simps) (simp add: g deref_def Let_def)
  next
    case (Cons c cs)
    with n have cs: "c \<noteq> NUL" "cs = [] \<or> cs ! 0 \<noteq> NUL" by (auto simp: neq_Nil_conv)
    have g: "get_string pas i = Some (c # cs)" using get_string_packed[OF assms] Cons by simp
    show ?thesis using u cs unfolding Cons next_default_def entry_ptr_def
      by (subst acl_check_loop.simps) (auto simp: g deref_def Let_def)
  qed
qed

lemma of_char_zero_iff: "of_char c = (0 :: int) \<longleftrightarrow> c = NUL"
proof -
  have "of_char NUL = (0 :: int)" by (simp add: NUL_def)
  then have "of_char c = (0 :: int) \<longleftrightarrow> (of_char c :: int) = of_char NUL" by simp
  then show ?thesis by (simp only: of_char_eq_iff)
qed

lemma strcmp_bytes_eq:
  "NUL \<notin> set a \<Longrightarrow> NUL \<notin> set b \<Longrightarrow> strcmp_bytes a b = 0 \<longleftrightarrow> a = b"
proof (induction a b rule: strcmp_bytes.induct)
  case 1
  then show ?case by simp
next
  case (2 y ys)
  then show ?case by (auto simp: uchar_int_def of_char_zero_iff)
next
  case (3 x xs)
  then show ?case by (auto simp: uchar_int_def of_char_zero_iff)
next
  case (4 x xs y ys)
  then show ?case by (auto simp: uchar_int_def)
qed

lemma bytes_at_entry_ptr: "bytes_at (entry_ptr e) = Some (strip_sign e)"
  by (cases e) (auto simp: entry_ptr_def strip_sign_def bytes_at_def drop_Suc)

lemma bytes_at_0 [simp]: "bytes_at (s, 0) = Some s"
  by (simp add: bytes_at_def)

text \<open>The loop from index \<open>i\<close> on is the loop on the rest of the list.\<close>

lemma acl_check_loop_scan:
  assumes "packed pas es"
  shows "i \<le> length es \<Longrightarrow> acl_check_loop mf pas name i d = scan_entries mf name (drop i es) d"
proof (induction "length es - i" arbitrary: i d)
  case 0
  then have "i = length es" by simp
  moreover have "as_usedptr pas = length es" using assms by (simp add: packed_def)
  ultimately show ?case by (subst acl_check_loop.simps) simp
next
  case (Suc n)
  then have i: "i < length es" by simp
  have d: "drop i es = es ! i # drop (Suc i) es" by (rule Cons_nth_drop_Suc[OF i, symmetric])
  have ih: "acl_check_loop mf pas name (i + 1) d' = scan_entries mf name (drop (Suc i) es) d'" for d'
    using Suc.hyps(1)[of "i + 1" d'] Suc.hyps(2) i by simp
  show ?case
    unfolding acl_check_loop_step[OF assms i] d scan_entries.simps ih decision_def by simp
qed

lemma acl_check_scan:
  assumes "ATR_VFLAG_SET \<in> at_flags attr" "at_arst attr = Some pas" "packed pas es" "es \<noteq> []"
  shows "acl_check env attr (Some name) type
     = scan_entries (match_func env type) name es (if HOST_ACL_DEFAULT_ALL env then 1 else 0)"
proof -
  have "as_usedptr pas \<noteq> 0" using assms(3,4) by (simp add: packed_def)
  then show ?thesis
    using assms(1,2) acl_check_loop_scan[OF assms(3), of 0 "match_func env type" name]
    by (simp add: acl_check_def)
qed

lemma generic_match:
  assumes "NUL \<notin> set name" "NUL \<notin> set e"
  shows "match_func env ACL_Generic (name, 0) (entry_ptr e) = Some r \<longleftrightarrow> r = strcmp_bytes name (strip_sign e)"
    and "strcmp_bytes name (strip_sign e) = 0 \<longleftrightarrow> name = strip_sign e"
proof -
  have n: "NUL \<notin> set (strip_sign e)"
    using assms(2) by (cases e) (auto simp: strip_sign_def)
  show "match_func env ACL_Generic (name, 0) (entry_ptr e) = Some r \<longleftrightarrow> r = strcmp_bytes name (strip_sign e)"
    by (auto simp: match_func_def strcmp_def bytes_at_entry_ptr)
  show "strcmp_bytes name (strip_sign e) = 0 \<longleftrightarrow> name = strip_sign e"
    by (rule strcmp_bytes_eq[OF assms(1) n])
qed

lemma generic_scan_entries:
  assumes "NUL \<notin> set name"
  shows "list_all (\<lambda>e. NUL \<notin> set e) es \<Longrightarrow>
     scan_entries (match_func env ACL_Generic) name es d = Some (generic_scan name es d)"
proof (induction es arbitrary: d)
  case Nil
  show ?case by simp
next
  case (Cons e es)
  then have e: "NUL \<notin> set e" and es: "list_all (\<lambda>e. NUL \<notin> set e) es" by simp_all
  have m: "match_func env ACL_Generic (name, 0) (entry_ptr e) = Some (strcmp_bytes name (strip_sign e))"
    using generic_match(1)[OF assms e] by simp
  show ?case
    unfolding scan_entries.simps m generic_scan.simps Cons.IH[OF es]
    using generic_match(2)[OF assms e] by simp
qed

text \<open>
  Claim C9.  For a type code other than Host, User, Group and Subnet, \<open>acl_check\<close> on
  an attribute that is set and holds at least one entry returns what \<open>generic_scan\<close>
  returns from the initial default: the first entry whose text without the leading
  \<open>+\<close> or \<open>-\<close> equals the candidate byte for byte decides, deny for a \<open>-\<close> and allow
  otherwise; entries that differ from the candidate are passed over.
\<close>

theorem generic_entry_equality:
  assumes "ATR_VFLAG_SET \<in> at_flags attr" and "at_arst attr = Some pas" and "packed pas es"
    and "es \<noteq> []" and "NUL \<notin> set name"
  shows "acl_check env attr (Some name) ACL_Generic
     = Some (generic_scan name es (if HOST_ACL_DEFAULT_ALL env then 1 else 0))"
proof -
  have "list_all (\<lambda>e. NUL \<notin> set e) es" using assms(3) by (simp add: packed_def)
  then show ?thesis
    unfolding acl_check_scan[OF assms(1-4)] by (rule generic_scan_entries[OF assms(5)])
qed

text \<open>
  The list \<open>-ann\<close>, \<open>bob\<close>: \<open>ann\<close> is denied and \<open>bob\<close> allowed by their entries,
  \<open>Bob\<close> equals no entry and gets the default.
\<close>

theorem generic_entry_equality_witness:
  "ATR_VFLAG_SET \<in> at_flags (attr_of [''-ann'', ''bob''])
   \<and> packed (array_of [''-ann'', ''bob'']) [''-ann'', ''bob'']
   \<and> acl_check plain_env (attr_of [''-ann'', ''bob'']) (Some ''ann'') ACL_Generic = Some 0
   \<and> acl_check plain_env (attr_of [''-ann'', ''bob'']) (Some ''bob'') ACL_Generic = Some 1
   \<and> acl_check plain_env (attr_of [''-ann'', ''bob'']) (Some ''Bob'') ACL_Generic = Some 0
   \<and> acl_check (plain_env\<lparr>HOST_ACL_DEFAULT_ALL := True\<rparr>) (attr_of [''-ann'', ''bob'']) (Some ''Bob'')
        ACL_Generic = Some 1"
proof -
  have f: "ATR_VFLAG_SET \<in> at_flags (attr_of [''-ann'', ''bob''])" by (simp add: attr_of_def)
  have a: "at_arst (attr_of [''-ann'', ''bob'']) = Some (array_of [''-ann'', ''bob''])"
    by (simp add: attr_of_def)
  have p: "packed (array_of [''-ann'', ''bob'']) [''-ann'', ''bob'']"
    by (rule packed_array_of) (simp add: NUL_def)
  have e: "[''-ann'', ''bob''] \<noteq> []" by simp
  have n: "NUL \<notin> set ''ann''" "NUL \<notin> set ''bob''" "NUL \<notin> set ''Bob''" by (simp_all add: NUL_def)
  from generic_entry_equality[OF f a p e n(1), of plain_env]
       generic_entry_equality[OF f a p e n(2), of plain_env]
       generic_entry_equality[OF f a p e n(3), of plain_env]
       generic_entry_equality[OF f a p e n(3), of "plain_env\<lparr>HOST_ACL_DEFAULT_ALL := True\<rparr>"] f p
  show ?thesis by (simp add: strip_sign_def next_default_def decision_def plain_env_def)
qed

lemma hacl_match_bare:
  assumes "length e = 1"
  shows "hacl_match (name, 0) (e, 1) = Some 1"
  using assms
  by (simp add: hacl_match_def strlen_def bytes_at_def hacl_scan.simps[of _ "(e, 1)"])

lemma user_match_bare:
  assumes "length e = 1" "name \<noteq> []" "NUL \<notin> set name"
  shows "user_match (name, 0) (e, 1) = Some 1"
proof -
  from assms obtain c cs where n: "name = c # cs" "c \<noteq> NUL" by (cases name) auto
  show ?thesis using assms(1) n
    by (simp add: user_match_def user_match_loop.simps[of _ _ 0] deref_def ptr_add_def)
qed

lemma sacl_match_empty: "sacl_match maxip can [] = 1"
  by (simp add: sacl_match_def strchr_def split: option.splits)

lemma bare_sign_match:
  assumes "e = ''+'' \<or> e = ''-''" and "NUL \<notin> set name"
    and "type = ACL_Host \<or> type = ACL_Subnet
         \<or> ((type = ACL_User \<or> type = ACL_Generic) \<and> name \<noteq> [])
         \<or> (type = ACL_Group \<and> gacl_match (group_directory env) name [] = 1)"
  shows "\<exists>r. match_func env type (name, 0) (e, 1) = Some r \<and> r \<noteq> 0"
proof -
  from assms(1) have e: "length e = 1" "bytes_at (e, 1) = Some []"
    by (auto simp: bytes_at_def)
  show ?thesis
  proof (cases type)
    case ACL_Host
    then show ?thesis by (simp add: match_func_def hacl_match_bare[OF e(1)])
  next
    case ACL_User
    with assms(3) have "name \<noteq> []" by auto
    then show ?thesis using ACL_User
      by (simp add: match_func_def user_match_bare[OF e(1) _ assms(2)])
  next
    case ACL_Group
    with assms(3) show ?thesis by (simp add: match_func_def e(2))
  next
    case ACL_Subnet
    then show ?thesis by (simp add: match_func_def e(2) sacl_match_empty)
  next
    case ACL_Generic
    with assms(3) have "name \<noteq> []" by auto
    then have "strcmp_bytes name [] \<noteq> 0"
      using strcmp_bytes_eq[OF assms(2), of "[]"] by simp
    then show ?thesis using ACL_Generic by (simp add: match_func_def strcmp_def e(2))
  qed
qed

lemma bare_sign_scan:
  assumes "\<forall>e \<in> set es. e = ''+'' \<or> e = ''-'' \<longrightarrow> (\<exists>r. mf (name, 0) (e, 1) = Some r \<and> r \<noteq> 0)"
  shows "scan_entries mf name es d = spec_scan mf name es d"
  using assms
proof (induction es arbitrary: d)
  case Nil
  show ?case by simp
next
  case (Cons e es)
  then have ih: "scan_entries mf name es d' = spec_scan mf name es d'" for d' by simp
  show ?case
  proof (cases "e = ''+'' \<or> e = ''-''")
    case True
    then obtain r where r: "mf (name, 0) (e, 1) = Some r" "r \<noteq> 0" using Cons.prems by auto
    have "entry_ptr e = (e, 1)" "next_default e d = (if e = ''+'' then 1 else 0)"
      using True by (auto simp: entry_ptr_def next_default_def)
    then show ?thesis using True r ih by simp
  next
    case False
    then have "next_default e d = d" by (simp add: next_default_def)
    then show ?thesis using False ih by (simp cong: if_cong)
  qed
qed

text \<open>
  Claim C3, as amended.  At a stored entry that is exactly \<open>+\<close> or \<open>-\<close> the scan of
  \<open>acl_check\<close> sets the running default (allow for \<open>+\<close>, deny for \<open>-\<close>) and then
  still calls the match function, on the empty rest of the entry.  For a Host or Subnet
  list with any candidate, for a User or Generic list with a candidate that is not empty,
  and for a Group list where \<open>gacl_match\<close> finds the candidate in no group of the empty
  name, that call reports no match; \<open>acl_check\<close> on an attribute that is set and holds
  at least one entry then returns what \<open>spec_scan\<close> returns from the initial default,
  the scan in which such an entry only sets the running default and never ends the scan.
\<close>

theorem bare_sign_entry:
  assumes "ATR_VFLAG_SET \<in> at_flags attr" and "at_arst attr = Some pas" and "packed pas es"
    and "es \<noteq> []" and "NUL \<notin> set name"
    and "type = ACL_Host \<or> type = ACL_Subnet
         \<or> ((type = ACL_User \<or> type = ACL_Generic) \<and> name \<noteq> [])
         \<or> (type = ACL_Group \<and> gacl_match (group_directory env) name [] = 1)"
  shows "acl_check env attr (Some name) type
           = spec_scan (match_func env type) name es (if HOST_ACL_DEFAULT_ALL env then 1 else 0)
     \<and> (\<forall>e \<in> set es. e = ''+'' \<or> e = ''-'' \<longrightarrow>
           (\<exists>r. match_func env type (name, 0) (e, 1) = Some r \<and> r \<noteq> 0))"
proof -
  have m: "\<forall>e \<in> set es. e = ''+'' \<or> e = ''-'' \<longrightarrow>
           (\<exists>r. match_func env type (name, 0) (e, 1) = Some r \<and> r \<noteq> 0)"
    using bare_sign_match[OF _ assms(5,6)] by blast
  show ?thesis
    unfolding acl_check_scan[OF assms(1-4)]
    using bare_sign_scan[of es "match_func env type" name, OF m] m by simp
qed

text \<open>
  The Host list \<open>+\<close>, \<open>-x.org\<close>, \<open>-\<close>: the host \<open>x.org\<close> is denied by its entry, and
  \<open>a.org\<close>, which no entry matches, by the default the last bare sign has set.
\<close>

theorem bare_sign_entry_witness:
  "ATR_VFLAG_SET \<in> at_flags (attr_of [''+'', ''-x.org'', ''-''])
   \<and> packed (array_of [''+'', ''-x.org'', ''-'']) [''+'', ''-x.org'', ''-'']
   \<and> acl_check plain_env (attr_of [''+'', ''-x.org'', ''-'']) (Some ''a.org'') ACL_Host = Some 0
   \<and> spec_scan (match_func plain_env ACL_Host) ''a.org'' [''+'', ''-x.org'', ''-''] 0 = Some 0
   \<and> acl_check plain_env (attr_of [''+'', ''-x.org'']) (Some ''a.org'') ACL_Host = Some 1
   \<and> spec_scan (match_func plain_env ACL_Host) ''a.org'' [''+'', ''-x.org''] 0 = Some 1
   \<and> (\<exists>r. match_func plain_env ACL_Host (''a.org'', 0) (''+'', 1) = Some r \<and> r \<noteq> 0)"
proof -
  have f: "ATR_VFLAG_SET \<in> at_flags (attr_of [''+'', ''-x.org'', ''-''])"
    "ATR_VFLAG_SET \<in> at_flags (attr_of [''+'', ''-x.org''])" by (simp_all add: attr_of_def)
  have a: "at_arst (attr_of [''+'', ''-x.org'', ''-'']) = Some (array_of [''+'', ''-x.org'', ''-''])"
    "at_arst (attr_of [''+'', ''-x.org'']) = Some (array_of [''+'', ''-x.org''])"
    by (simp_all add: attr_of_def)
  have p: "packed (array_of [''+'', ''-x.org'', ''-'']) [''+'', ''-x.org'', ''-'']"
    "packed (array_of [''+'', ''-x.org'']) [''+'', ''-x.org'']"
    by (rule packed_array_of, simp add: NUL_def)+
  have e: "[''+'', ''-x.org'', ''-''] \<noteq> []" "[''+'', ''-x.org''] \<noteq> []" by simp_all
  have n: "NUL \<notin> set ''a.org''" by (simp add: NUL_def)
  have t: "ACL_Host = ACL_Host \<or> ACL_Host = ACL_Subnet
         \<or> ((ACL_Host = ACL_User \<or> ACL_Host = ACL_Generic) \<and> ''a.org'' \<noteq> [])
         \<or> (ACL_Host = ACL_Group \<and> gacl_match (group_directory plain_env) ''a.org'' [] = 1)"
    by simp
  have s: "spec_scan (match_func plain_env ACL_Host) ''a.org'' [''+'', ''-x.org'', ''-''] 0 = Some 0"
    "spec_scan (match_func plain_env ACL_Host) ''a.org'' [''+'', ''-x.org''] 0 = Some 1"
    by code_simp+
  have d: "(if HOST_ACL_DEFAULT_ALL plain_env then 1 else 0) = (0 :: int)"
    by (simp add: plain_env_def)
  from bare_sign_entry[OF f(1) a(1) p(1) e(1) n t] bare_sign_entry[OF f(2) a(2) p(2) e(2) n t]
  show ?thesis unfolding d s using f(1) p(1) by simp
qed

text \<open>
  Claim C3 as stated fails for a Generic list and the empty candidate: the empty rest of
  the entry \<open>+\<close> equals the candidate, so the entry itself ends the scan and
  \<open>acl_check\<close> allows, where the scan in which a bare sign only sets the default
  denies by the \<open>-\<close> behind it.
\<close>

theorem bare_sign_ends_scan:
  "acl_check plain_env (attr_of [''+'', ''-'']) (Some []) ACL_Generic = Some 1
   \<and> spec_scan (match_func plain_env ACL_Generic) [] [''+'', ''-''] 0 = Some 0"
  by code_simp

section \<open>\<open>user_order\<close>\<close>

text \<open>
  Claim C7.  Where both user names end together at their terminators, \<open>user_order\<close>
  calls \<open>host_order\<close> on the bytes behind the two terminators: the comparison leaves
  both strings.  Two entries that differ in their sign only are enough, and \<open>set_uacl\<close>
  reaches the comparison when one is added to the other.
\<close>

theorem user_order_reads_behind_terminator:
  "user_order (''bob'', 0) (''bob'', 0) = None
   \<and> user_order (''+bob'', 0) (''-bob'', 0) = None
   \<and> set_uacl good_alloc (attr_of [''+bob'']) (attr_of [''-bob'']) INCR = None"
  by code_simp

section \<open>The array behind the list of entries\<close>

text \<open>
  The functions of \<open>set_allacl\<close> work on the block of bytes and the slots; on a packed
  array they do what the operators on lists say, and they keep the array packed.
\<close>

subsection \<open>Offsets\<close>

lemma length_offs [simp]: "length (offs a es) = length es"
  by (induction es arbitrary: a) auto

lemma offs_append: "offs a (xs @ ys) = offs a xs @ offs (a + length (flat xs)) ys"
  by (induction xs arbitrary: a) (auto simp: add.assoc)

lemma offs_nth: "i < length es \<Longrightarrow> offs a es ! i = int (a + length (flat (take i es)))"
proof (induction es arbitrary: a i)
  case Nil
  then show ?case by simp
next
  case (Cons e es)
  then show ?case by (cases i) (auto simp: add.assoc)
qed

lemma offsets_offs: "offsets es = offs 0 es"
  by (rule nth_equalityI) (simp_all add: offsets_def offs_nth)

lemma map_add_offs: "map (\<lambda>p. p + int k) (offs a es) = offs (a + k) es"
  by (induction es arbitrary: a) (auto simp: add.commute add.left_commute)

lemma map_sub_offs: "map (\<lambda>p. p - int k) (offs (a + k) es) = offs a es"
proof -
  have "map (\<lambda>p. p - int k) (map (\<lambda>p. p + int k) (offs a es)) = offs a es"
    by (simp add: comp_def)
  then show ?thesis by (simp only: map_add_offs)
qed

subsection \<open>Adding\<close>

text \<open>
  \<open>find_slot\<close> finds the slot \<open>ins_pos\<close> names; \<open>shift_up\<close> and \<open>adjust_up\<close>
  move the slots behind it; \<open>insert_string\<close> then holds the list with the new string
  at that slot, and \<open>insert_strings\<close> the list \<open>ins_all\<close> gives.
\<close>

lemma ins_pos_le: "ins_pos f es new = Some j \<Longrightarrow> j \<le> length es"
proof (induction es arbitrary: j)
  case Nil
  then show ?case by simp
next
  case (Cons e es)
  then show ?case by (auto split: bind_splits if_splits)
qed

lemma find_slot_packed:
  assumes "packed pas es"
  shows "j \<le> length es \<Longrightarrow>
    find_slot f pas new j = map_option ((+) j) (ins_pos f (drop j es) new)"
proof (induction "length es - j" arbitrary: j)
  case 0
  then have "j = length es" by simp
  then show ?case using assms
    by (subst find_slot.simps) (simp add: packed_def)
next
  case (Suc n)
  then have j: "j < length es" by simp
  then have u: "j < as_usedptr pas" using assms by (simp add: packed_def)
  have d: "drop j es = es ! j # drop (Suc j) es" using j by (simp add: Cons_nth_drop_Suc)
  have "find_slot f pas new (Suc j)
      = map_option ((+) (Suc j)) (ins_pos f (drop (Suc j) es) new)"
    using Suc.hyps(2) j by (intro Suc.hyps(1)) simp_all
  then have ih: "find_slot f pas new (j + 1)
      = map_option ((+) (Suc j)) (ins_pos f (drop (Suc j) es) new)"
    by simp
  have st: "find_slot f pas new j =
     do { d \<leftarrow> f (es ! j, 0) (new, 0);
          if d > 0 then Some j else find_slot f pas new (j + 1) }"
    using u by (subst find_slot.simps) (simp add: get_string_packed[OF assms j])
  show ?case
  proof (cases "f (es ! j, 0) (new, 0)")
    case None
    then show ?thesis unfolding st d by simp
  next
    case (Some r)
    show ?thesis
    proof (cases "ins_pos f (drop (Suc j) es) new")
      case None
      then show ?thesis unfolding st d ih using Some by simp
    next
      case (Some k)
      then show ?thesis unfolding st d ih using \<open>f (es ! j, 0) (new, 0) = Some r\<close> by simp
    qed
  qed
qed

lemma shift_up_correct:
  "l + n + k \<le> length b \<Longrightarrow> 0 < k \<Longrightarrow>
   shift_up b (int l) (int k) (int (l + n) - 1)
     = Some (take (l + k) b @ take n (drop l b) @ drop (l + n + k) b)"
proof (induction n arbitrary: b)
  case 0
  then show ?case by (subst shift_up.simps) simp
next
  case (Suc n)
  let ?b' = "b[l + n + k := b ! (l + n)]"
  have st: "shift_up b (int l) (int k) (int (l + Suc n) - 1)
      = shift_up ?b' (int l) (int k) (int (l + n) - 1)"
    using Suc.prems
    by (subst shift_up.simps) (simp add: rd_def wr_def nat_add_distrib)
  have ih: "shift_up ?b' (int l) (int k) (int (l + n) - 1)
      = Some (take (l + k) ?b' @ take n (drop l ?b') @ drop (l + n + k) ?b')"
    using Suc.prems by (intro Suc.IH) simp_all
  have 1: "take (l + k) ?b' = take (l + k) b" by simp
  have 2: "take n (drop l ?b') = take n (drop l b)"
    by (simp add: drop_update_swap)
  have 3: "drop (l + n + k) ?b' = b ! (l + n) # drop (l + Suc n + k) b"
    using Suc.prems by (simp add: Cons_nth_drop_Suc[symmetric])
  have 4: "take (Suc n) (drop l b) = take n (drop l b) @ [b ! (l + n)]"
    using Suc.prems by (simp add: take_Suc_conv_app_nth)
  show ?case unfolding st ih 1 2 3 4 by simp
qed

lemma adjust_up_correct:
  "j + n < length ps \<Longrightarrow>
   adjust_up ps j offset (j + n)
     = Some (take (Suc j) ps @ map (map_option (\<lambda>p. p + offset)) (take n (drop j ps))
             @ drop (Suc (j + n)) ps)"
proof (induction n arbitrary: ps)
  case 0
  then show ?case by (subst adjust_up.simps) simp
next
  case (Suc n)
  let ?f = "map_option (\<lambda>p. p + offset)"
  let ?ps' = "ps[Suc (j + n) := ?f (ps ! (j + n))]"
  have st: "adjust_up ps j offset (j + Suc n) = adjust_up ?ps' j offset (j + n)"
    using Suc.prems by (subst adjust_up.simps) simp
  have ih: "adjust_up ?ps' j offset (j + n)
      = Some (take (Suc j) ?ps' @ map ?f (take n (drop j ?ps')) @ drop (Suc (j + n)) ?ps')"
    using Suc.prems by (intro Suc.IH) simp
  have 1: "take (Suc j) ?ps' = take (Suc j) ps" by simp
  have 2: "take n (drop j ?ps') = take n (drop j ps)"
    by (simp add: drop_update_swap)
  have 3: "drop (Suc (j + n)) ?ps' = ?f (ps ! (j + n)) # drop (Suc (j + Suc n)) ps"
    using Suc.prems by (simp add: Cons_nth_drop_Suc[symmetric])
  have 4: "take (Suc n) (drop j ps) = take n (drop j ps) @ [ps ! (j + n)]"
    using Suc.prems by (simp add: take_Suc_conv_app_nth)
  show ?case unfolding st ih 1 2 3 4 by simp
qed

lemma compact_ptrs_correct:
  "0 < i \<Longrightarrow> i \<le> length ps \<Longrightarrow>
   compact_ptrs ps nsize i (length ps)
     = Some (take (i - 1) ps @ map (map_option (\<lambda>p. p - nsize)) (drop i ps) @ [None])"
proof (induction "length ps - i" arbitrary: ps i)
  case 0
  then have i: "i = length ps" by simp
  have "ps[length ps - 1 := None] = take (length ps - 1) ps @ [None]"
    using 0 i by (cases ps rule: rev_cases) (simp_all add: list_update_append)
  then show ?case using 0 i
    by (subst compact_ptrs.simps) (simp add: set_slot_def)
next
  case (Suc n)
  then have i: "i < length ps" by simp
  let ?f = "map_option (\<lambda>p. p - nsize)"
  let ?ps' = "ps[i - 1 := ?f (ps ! i)]"
  have st: "compact_ptrs ps nsize i (length ps) = compact_ptrs ?ps' nsize (i + 1) (length ?ps')"
    using Suc.prems i by (subst compact_ptrs.simps) simp
  have ih: "compact_ptrs ?ps' nsize (i + 1) (length ?ps')
      = Some (take (i + 1 - 1) ?ps' @ map ?f (drop (i + 1) ?ps') @ [None])"
    using Suc.hyps(2) i by (intro Suc.hyps(1)) simp_all
  have 1: "take (i + 1 - 1) ?ps' = take (i - 1) ps @ [?f (ps ! i)]"
    using Suc.prems i by (cases i) (simp_all add: take_Suc_conv_app_nth)
  have 2: "drop (i + 1) ?ps' = drop (i + 1) ps" by simp
  have 3: "drop i ps = ps ! i # drop (i + 1) ps"
    using i by (simp add: Cons_nth_drop_Suc)
  show ?case unfolding st ih 1 2 3 by simp
qed

lemma buf_insert:
  assumes b: "b = A @ B @ rest" and k: "k = length new + 1" and r: "k \<le> length rest"
  shows "\<exists>b1. shift_up b (int (length A)) (int (length new) + 1) (int (length A + length B) - 1) = Some b1
     \<and> strcpy b1 (int (length A)) new = Some (A @ new @ NUL # B @ drop k rest)"
proof -
  let ?l = "length A" and ?n = "length B"
  let ?b1 = "take (?l + k) b @ take ?n (drop ?l b) @ drop (?l + ?n + k) b"
  have sh: "shift_up b (int ?l) (int k) (int (?l + ?n) - 1) = Some ?b1"
    using b k r by (intro shift_up_correct) simp_all
  have 1: "take ?l ?b1 = A" using b by simp
  have 2: "drop (?l + k) ?b1 = B @ drop k rest" using b r by simp
  have len: "?l + length new + 1 \<le> length ?b1" using b k r by simp
  have "strcpy ?b1 (int ?l) new = Some (take ?l ?b1 @ new @ [NUL] @ drop (?l + length new + 1) ?b1)"
    using len unfolding strcpy_def by simp
  also have "drop (?l + length new + 1) ?b1 = B @ drop k rest"
    using 2 k by (simp add: add.assoc)
  finally have "strcpy ?b1 (int ?l) new = Some (A @ new @ NUL # B @ drop k rest)"
    using 1 by simp
  moreover have "int k = int (length new) + 1" using k by simp
  ultimately show ?thesis using sh by (intro exI[of _ ?b1]) simp
qed

lemma ptr_insert:
  assumes t: "take (length es) ps = map Some (offs 0 es)" and j: "j < length es"
    and m: "length es < length ps" and k: "k = length new + 1"
  shows "\<exists>ps1 ps2. adjust_up ps j (int (length new) + 1) (length es) = Some ps1
     \<and> set_slot ps1 j (Some (int (length (flat (take j es))))) = Some ps2
     \<and> length ps2 = length ps
     \<and> take (Suc (length es)) ps2 = map Some (offs 0 (take j es @ new # drop j es))"
proof -
  let ?f = "map_option (\<lambda>p. p + int k)"
  let ?l = "length (flat (take j es))"
  let ?ps1 = "take (Suc j) ps @ map ?f (take (length es - j) (drop j ps)) @ drop (Suc (length es)) ps"
  have es: "es = take j es @ drop j es" by simp
  have ad: "adjust_up ps j (int k) (length es) = Some ?ps1"
    using adjust_up_correct[of j "length es - j" ps "int k"] j m by simp
  have o: "offs 0 es = offs 0 (take j es) @ offs ?l (drop j es)"
    using offs_append[of 0 "take j es" "drop j es"] by simp
  have tj: "take j ps = map Some (offs 0 (take j es))"
  proof -
    have "take j ps = take j (take (length es) ps)" using j by (simp add: min_def)
    also have "\<dots> = take j (map Some (offs 0 (take j es)) @ map Some (offs ?l (drop j es)))"
      using t o by simp
    also have "\<dots> = map Some (offs 0 (take j es))" using j by simp
    finally show ?thesis .
  qed
  have dj: "take (length es - j) (drop j ps) = map Some (offs ?l (drop j es))"
  proof -
    have "take (length es - j) (drop j ps) = drop j (take (length es) ps)"
      using j by (simp add: drop_take)
    also have "\<dots> = drop j (map Some (offs 0 (take j es)) @ map Some (offs ?l (drop j es)))"
      using t o by simp
    also have "\<dots> = map Some (offs ?l (drop j es))" using j by simp
    finally show ?thesis .
  qed
  have pj: "ps ! j = Some (int ?l)"
  proof -
    have "ps ! j = take (length es) ps ! j" using j by simp
    also have "\<dots> = Some (offs 0 es ! j)" using t j by simp
    finally show ?thesis using j by (simp add: offs_nth)
  qed
  have tsj: "take (Suc j) ps = map Some (offs 0 (take j es)) @ [Some (int ?l)]"
    using tj pj j m by (simp add: take_Suc_conv_app_nth)
  have mf: "map ?f (map Some (offs ?l (drop j es))) = map Some (offs (?l + k) (drop j es))"
  proof -
    have "map ?f (map Some (offs ?l (drop j es)))
        = map Some (map (\<lambda>p. p + int k) (offs ?l (drop j es)))"
      by (simp add: comp_def)
    then show ?thesis by (simp only: map_add_offs)
  qed
  have ps1: "?ps1 = map Some (offs 0 (take j es)) @ [Some (int ?l)]
       @ map Some (offs (?l + k) (drop j es)) @ drop (Suc (length es)) ps"
    unfolding tsj dj mf by simp
  have len1: "length ?ps1 = length ps" using j m by simp
  let ?ps2 = "?ps1[j := Some (int ?l)]"
  have ps2: "?ps2 = map Some (offs 0 (take j es)) @ [Some (int ?l)]
       @ map Some (offs (?l + k) (drop j es)) @ drop (Suc (length es)) ps"
    unfolding ps1 using j by (simp add: list_update_append)
  have ss: "set_slot ?ps1 j (Some (int ?l)) = Some ?ps2"
    using j m len1 unfolding set_slot_def by simp
  have "offs 0 (take j es @ new # drop j es)
      = offs 0 (take j es) @ int ?l # offs (?l + k) (drop j es)"
    using k by (simp add: offs_append add.assoc)
  then have tk: "take (Suc (length es)) ?ps2 = map Some (offs 0 (take j es @ new # drop j es))"
    unfolding ps2 using j by (simp add: Suc_diff_le)
  have "int k = int (length new) + 1" using k by simp
  then show ?thesis using ad ss len1 tk by (intro exI[of _ ?ps1] exI[of _ ?ps2]) simp
qed

lemma packed_whole_buf:
  assumes "packed pas es" "as_buf pas = Some b"
  shows "b = flat es @ drop (length (flat es)) b" "length b = as_bufsize pas"
    "length (flat es) \<le> length b"
proof -
  from assms have t: "take (length (flat es)) b = flat es" and l: "length b = as_bufsize pas"
    and le: "length (flat es) \<le> length b"
    by (auto simp: packed_def)
  have "b = take (length (flat es)) b @ drop (length (flat es)) b" by simp
  then show "b = flat es @ drop (length (flat es)) b" using t by simp
  show "length b = as_bufsize pas" by (rule l)
  show "length (flat es) \<le> length b" by (rule le)
qed

lemma packed_offs: "packed pas es \<Longrightarrow> take (length es) (as_string pas) = map Some (offs 0 es)"
  by (simp add: packed_def offsets_offs)

lemma packedI:
  assumes "as_usedptr pas = length es" "length (as_string pas) = as_npointers pas"
    "length es \<le> as_npointers pas" "list_all (\<lambda>e. NUL \<notin> set e) es"
    "as_next pas = Some (int (length (flat es)))" "as_buf pas = Some b" "length b = as_bufsize pas"
    "length (flat es) \<le> length b" "take (length (flat es)) b = flat es"
    "take (length es) (as_string pas) = map Some (offs 0 es)"
  shows "packed pas es"
  using assms by (simp add: packed_def offsets_offs)

lemma insert_string_packed:
  assumes p: "packed pas es" and new: "NUL \<notin> set new" and b: "as_buf pas = Some b"
    and room: "length (flat es) + length new + 1 \<le> as_bufsize pas"
    and slots: "length es < as_npointers pas"
    and pos: "ins_pos f es new = Some j"
  shows "\<exists>pas'. insert_string f pas new = Some pas'
     \<and> packed pas' (take j es @ new # drop j es)
     \<and> as_bufsize pas' = as_bufsize pas \<and> as_npointers pas' = as_npointers pas
     \<and> as_buf pas' \<noteq> None"
proof -
  let ?k = "length new + 1"
  let ?es' = "take j es @ new # drop j es"
  let ?A = "flat (take j es)" and ?B = "flat (drop j es)"
  let ?rest = "drop (length (flat es)) b"
  have jl: "j \<le> length es" by (rule ins_pos_le[OF pos])
  have u: "as_usedptr pas = length es" and np: "length (as_string pas) = as_npointers pas"
    and nx: "as_next pas = Some (int (length (flat es)))"
    and nf: "list_all (\<lambda>e. NUL \<notin> set e) es"
    using p by (auto simp: packed_def)
  have fs: "find_slot f pas new 0 = Some j"
    using find_slot_packed[OF p, of 0 f new] pos by simp
  have fl: "flat es = ?A @ ?B"
    using flat_append[of "take j es" "drop j es"] by simp
  have bb: "b = ?A @ ?B @ ?rest" "length b = as_bufsize pas"
    using packed_whole_buf[OF p b] fl by simp_all
  have rl: "?k \<le> length ?rest"
    using room bb(2) packed_whole_buf(3)[OF p b] by simp
  have fes': "flat ?es' = ?A @ new @ NUL # ?B" by simp
  have nf': "list_all (\<lambda>e. NUL \<notin> set e) ?es'"
  proof -
    have "set (take j es) \<subseteq> set es" "set (drop j es) \<subseteq> set es"
      by (auto dest: in_set_takeD in_set_dropD)
    with nf new show ?thesis by (auto simp: list_all_iff)
  qed
  have len': "length (flat ?es') = length (flat es) + ?k" using fl by simp
  show ?thesis
  proof (cases "j < length es")
    case True
    obtain b1 where b1: "shift_up b (int (length ?A)) (int (length new) + 1) (int (length ?A + length ?B) - 1) = Some b1"
      and b2: "strcpy b1 (int (length ?A)) new = Some (?A @ new @ NUL # ?B @ drop ?k ?rest)"
      using buf_insert[OF bb(1) refl rl] by blast
    obtain ps1 ps2 where ps1: "adjust_up (as_string pas) j (int (length new) + 1) (length es) = Some ps1"
      and ps2: "set_slot ps1 j (Some (int (length ?A))) = Some ps2"
      and lps: "length ps2 = length (as_string pas)"
      and tps: "take (Suc (length es)) ps2 = map Some (offs 0 ?es')"
      using ptr_insert[OF packed_offs[OF p] True _ refl, of new] slots np by auto
    have gs: "get_slot (as_string pas) j = Some (int (length ?A))"
      using packed_slot[OF p True] by (simp add: get_slot_def)
    have nx': "int (length (flat es)) - 1 = int (length ?A + length ?B) - 1" using fl by simp
    let ?pas' = "pas\<lparr>as_buf := Some (?A @ new @ NUL # ?B @ drop ?k ?rest), as_string := ps2,
                   as_usedptr := as_usedptr pas + 1, as_next := Some (int (length (flat es)) + (int (length new) + 1))\<rparr>"
    have r: "insert_string f pas new = Some ?pas'"
      unfolding insert_string_def fs Let_def nx using True u b gs b1 b2 ps1 ps2 nx'
      by simp
    let ?b2 = "?A @ new @ NUL # ?B @ drop ?k ?rest"
    have lb2: "length ?b2 = as_bufsize pas"
    proof -
      have "length b = length ?A + length ?B + length ?rest" using bb(1) by (metis length_append add.assoc)
      moreover have "length ?b2 = length ?A + length ?B + ?k + (length ?rest - ?k)" by simp
      ultimately show ?thesis using rl bb(2) by linarith
    qed
    have tb2: "take (length (flat ?es')) ?b2 = flat ?es'"
      unfolding fes' by simp
    have le': "length ?es' = Suc (length es)" using jl by simp
    have "packed ?pas' ?es'"
    proof (rule packedI[where b = ?b2])
      show "as_usedptr ?pas' = length ?es'" using u le' by simp
      show "length (as_string ?pas') = as_npointers ?pas'" using lps np by simp
      show "length ?es' \<le> as_npointers ?pas'" using slots le' by simp
      show "list_all (\<lambda>e. NUL \<notin> set e) ?es'" by (rule nf')
      show "as_next ?pas' = Some (int (length (flat ?es')))" using nx len' by simp
      show "as_buf ?pas' = Some ?b2" by simp
      show "length ?b2 = as_bufsize ?pas'" using lb2 by simp
      show "length (flat ?es') \<le> length ?b2" using lb2 len' room by simp
      show "take (length (flat ?es')) ?b2 = flat ?es'" by (rule tb2)
      show "take (length ?es') (as_string ?pas') = map Some (offs 0 ?es')"
        using tps le' by simp
    qed
    then show ?thesis using r by simp
  next
    case False
    then have je: "j = length es" using jl by simp
    then have B: "?B = []" "?A = flat es" by simp_all
    have cp: "strcpy b (int (length (flat es))) new = Some (flat es @ new @ NUL # drop ?k ?rest)"
    proof -
      have "strcpy b (int (length (flat es))) new
          = Some (take (length (flat es)) b @ new @ [NUL] @ drop (length (flat es) + length new + 1) b)"
        using room bb(2) unfolding strcpy_def by simp
      moreover have "take (length (flat es)) b = flat es" using p b by (simp add: packed_def)
      moreover have "drop (length (flat es) + length new + 1) b = drop ?k ?rest"
        by (simp add: add.commute add.left_commute)
      ultimately show ?thesis using nx by simp
    qed
    let ?ps2 = "(as_string pas)[j := Some (int (length (flat es)))]"
    have ss: "set_slot (as_string pas) j (Some (int (length (flat es)))) = Some ?ps2"
      using je slots np by (simp add: set_slot_def)
    have tps: "take (Suc (length es)) ?ps2 = map Some (offs 0 ?es')"
    proof -
      have "take (Suc (length es)) ?ps2 = take (length es) (as_string pas) @ [Some (int (length (flat es)))]"
        using je slots np by (simp add: take_Suc_conv_app_nth)
      also have "\<dots> = map Some (offs 0 es) @ [Some (int (length (flat es)))]"
        using packed_offs[OF p] nx by simp
      also have "\<dots> = map Some (offs 0 (es @ [new]))" by (simp add: offs_append)
      finally show ?thesis using je by simp
    qed
    let ?pas' = "pas\<lparr>as_buf := Some (flat es @ new @ NUL # drop ?k ?rest), as_string := ?ps2,
                   as_usedptr := as_usedptr pas + 1, as_next := Some (int (length (flat es)) + (int (length new) + 1))\<rparr>"
    have r: "insert_string f pas new = Some ?pas'"
      unfolding insert_string_def fs nx using False u b cp ss
      by (simp add: Let_def)
    let ?b2 = "flat es @ new @ NUL # drop ?k ?rest"
    have lb2: "length ?b2 = as_bufsize pas"
    proof -
      have "length b = length (flat es) + length ?rest" using packed_whole_buf(3)[OF p b] by simp
      moreover have "length ?b2 = length (flat es) + ?k + (length ?rest - ?k)" by simp
      ultimately show ?thesis using rl bb(2) by linarith
    qed
    have tb2: "take (length (flat ?es')) ?b2 = flat ?es'"
      unfolding fes' B by simp
    have le': "length ?es' = Suc (length es)" using jl by simp
    have "packed ?pas' ?es'"
    proof (rule packedI[where b = ?b2])
      show "as_usedptr ?pas' = length ?es'" using u le' by simp
      show "length (as_string ?pas') = as_npointers ?pas'" using np by simp
      show "length ?es' \<le> as_npointers ?pas'" using slots le' by simp
      show "list_all (\<lambda>e. NUL \<notin> set e) ?es'" by (rule nf')
      show "as_next ?pas' = Some (int (length (flat ?es')))" using nx len' by simp
      show "as_buf ?pas' = Some ?b2" by simp
      show "length ?b2 = as_bufsize ?pas'" using lb2 by simp
      show "length (flat ?es') \<le> length ?b2" using lb2 len' room by simp
      show "take (length (flat ?es')) ?b2 = flat ?es'" by (rule tb2)
      show "take (length ?es') (as_string ?pas') = map Some (offs 0 ?es')"
        using tps le' by simp
    qed
    then show ?thesis using r by simp
  qed
qed

lemma insert_string_fault:
  assumes p: "packed pas es" and pos: "ins_pos f es new = None"
  shows "insert_string f pas new = None"
  using find_slot_packed[OF p, of 0 f new] pos by (simp add: insert_string_def)

lemma ins_one_length: "ins_one f es new = Some es' \<Longrightarrow> length es' = Suc (length es)"
  by (auto simp: ins_one_def dest: ins_pos_le)

lemma ins_one_flat: "ins_one f es new = Some es' \<Longrightarrow> length (flat es') = length (flat es) + length new + 1"
proof -
  assume "ins_one f es new = Some es'"
  then obtain j where "es' = take j es @ new # drop j es" by (auto simp: ins_one_def)
  moreover have "flat es = flat (take j es) @ flat (drop j es)"
    using flat_append[of "take j es" "drop j es"] by simp
  ultimately show ?thesis by simp
qed

lemma insert_strings_packed:
  assumes "packed pas es" and "list_all (\<lambda>e. NUL \<notin> set e) ns"
    and "ns = [] \<or> as_buf pas \<noteq> None"
    and "length (flat es) + length (flat ns) \<le> as_bufsize pas"
    and "length es + length ns \<le> as_npointers pas"
  shows "case ins_all f es ns of
           None \<Rightarrow> insert_strings f pas ns = None
         | Some es' \<Rightarrow> \<exists>pas'. insert_strings f pas ns = Some pas' \<and> packed pas' es'
              \<and> as_bufsize pas' = as_bufsize pas \<and> as_npointers pas' = as_npointers pas"
  using assms
proof (induction ns arbitrary: pas es)
  case Nil
  then show ?case by simp
next
  case (Cons new rest)
  from Cons.prems(3) obtain b where b: "as_buf pas = Some b" by auto
  show ?case
  proof (cases "ins_pos f es new")
    case None
    then show ?thesis using insert_string_fault[OF Cons.prems(1) None]
      by (simp add: ins_one_def)
  next
    case (Some j)
    let ?es1 = "take j es @ new # drop j es"
    have one: "ins_one f es new = Some ?es1" using Some by (simp add: ins_one_def)
    from Cons.prems have n: "NUL \<notin> set new" and r1: "length (flat es) + length new + 1 \<le> as_bufsize pas"
      and s1: "length es < as_npointers pas"
      by simp_all
    obtain pas1 where i1: "insert_string f pas new = Some pas1" and p1: "packed pas1 ?es1"
      and bs: "as_bufsize pas1 = as_bufsize pas" and np: "as_npointers pas1 = as_npointers pas"
      and nb: "as_buf pas1 \<noteq> None"
      using insert_string_packed[OF Cons.prems(1) n b r1 s1 Some] by blast
    have ih: "case ins_all f ?es1 rest of
           None \<Rightarrow> insert_strings f pas1 rest = None
         | Some es' \<Rightarrow> \<exists>pas'. insert_strings f pas1 rest = Some pas' \<and> packed pas' es'
              \<and> as_bufsize pas' = as_bufsize pas1 \<and> as_npointers pas' = as_npointers pas1"
    proof (rule Cons.IH[OF p1])
      show "list_all (\<lambda>e. NUL \<notin> set e) rest" using Cons.prems(2) by simp
      show "rest = [] \<or> as_buf pas1 \<noteq> None" using nb by simp
      show "length (flat ?es1) + length (flat rest) \<le> as_bufsize pas1"
        using ins_one_flat[OF one] Cons.prems(4) bs by simp
      show "length ?es1 + length rest \<le> as_npointers pas1"
        using ins_one_length[OF one] Cons.prems(5) np by simp
    qed
    show ?thesis using ih i1 one bs np
      by (cases "ins_all f ?es1 rest") auto
  qed
qed

subsection \<open>Removing\<close>

lemma remove_string_packed:
  assumes p: "packed pas es" and i: "i < length es"
  shows "\<exists>pas'. remove_string pas i = Some pas'
     \<and> packed pas' (take i es @ drop (Suc i) es)
     \<and> as_bufsize pas' = as_bufsize pas \<and> as_npointers pas' = as_npointers pas"
proof -
  let ?es' = "take i es @ drop (Suc i) es"
  let ?A = "flat (take i es)" and ?B = "flat (drop (Suc i) es)"
  let ?s = "es ! i"
  let ?nsize = "int (length ?s) + 1"
  have u: "as_usedptr pas = length es" and np: "length (as_string pas) = as_npointers pas"
    and nx: "as_next pas = Some (int (length (flat es)))"
    and nf: "list_all (\<lambda>e. NUL \<notin> set e) es" and le: "length es \<le> as_npointers pas"
    using p by (auto simp: packed_def)
  obtain b where b: "as_buf pas = Some b"
    and bb: "b = ?A @ ?s @ NUL # ?B @ drop (length (flat es)) b"
    by (rule packed_buf[OF p i])
  let ?rest = "drop (length (flat es)) b"
  have fl: "flat es = ?A @ ?s @ NUL # ?B" by (rule flat_split[OF i])
  have lb: "length b = as_bufsize pas" using packed_whole_buf(2)[OF p b] .
  have gs: "get_string pas i = Some ?s" by (rule get_string_packed[OF p i])
  have sl: "get_slot (as_string pas) i = Some (int (length ?A))"
    using packed_slot[OF p i] by (simp add: get_slot_def)
  let ?b' = "?A @ ?B @ drop (length ?A + length ?B) b"
  have mm: "memmove b (int (length ?A)) (int (length ?A) + ?nsize)
      (int (length (flat es)) - (int (length ?A) + ?nsize)) = Some ?b'"
  proof -
    have need: "int (length (flat es)) - (int (length ?A) + ?nsize) = int (length ?B)"
      using nx fl by simp
    have src: "nat (int (length ?A) + ?nsize) = length ?A + length ?s + 1" by simp
    have d: "drop (length ?A + length ?s + 1) b = ?B @ ?rest"
      by (subst bb) simp
    have t: "take (length ?A) b = ?A" by (subst bb) simp
    have bound: "int (length ?A) + ?nsize + int (length ?B) \<le> int (length b)"
      using packed_whole_buf(3)[OF p b] fl by simp
    show ?thesis
      unfolding need memmove_def using bound d t
      by (simp add: nat_add_distrib)
  qed
  let ?f = "map_option (\<lambda>p. p - ?nsize)"
  let ?ps = "as_string pas"
  let ?ps' = "take i ?ps @ map ?f (drop (Suc i) ?ps) @ [None]"
  have cp: "compact_ptrs ?ps ?nsize (i + 1) (as_npointers pas) = Some ?ps'"
    using compact_ptrs_correct[of "i + 1" ?ps ?nsize] i le np by simp
  let ?pas' = "pas\<lparr>as_buf := Some ?b', as_next := Some (int (length (flat es)) - ?nsize), as_string := ?ps',
                 as_usedptr := as_usedptr pas - 1\<rparr>"
  have r: "remove_string pas i = Some ?pas'"
    unfolding remove_string_def gs sl b nx Let_def using mm cp by simp
  have o: "offs 0 es = offs 0 (take i es) @ int (length ?A) # offs (length ?A + length ?s + 1) (drop (Suc i) es)"
  proof -
    have "es = take i es @ ?s # drop (Suc i) es" using i by (simp add: id_take_nth_drop)
    then have "offs 0 es = offs 0 (take i es @ ?s # drop (Suc i) es)" by simp
    then show ?thesis by (simp add: offs_append del: append_take_drop_id)
  qed
  have ti: "take i ?ps = map Some (offs 0 (take i es))"
  proof -
    have "take i ?ps = take i (take (length es) ?ps)" using i by (simp add: min_def)
    also have "\<dots> = map Some (offs 0 (take i es))"
      unfolding packed_offs[OF p] o using i by simp
    finally show ?thesis .
  qed
  have di: "take (length es - Suc i) (drop (Suc i) ?ps)
      = map Some (offs (length ?A + length ?s + 1) (drop (Suc i) es))"
  proof -
    have "take (length es - Suc i) (drop (Suc i) ?ps) = drop (Suc i) (take (length es) ?ps)"
      by (simp add: drop_take)
    also have "\<dots> = map Some (offs (length ?A + length ?s + 1) (drop (Suc i) es))"
      unfolding packed_offs[OF p] o using i by simp
    finally show ?thesis .
  qed
  have mf: "map ?f (map Some (offs (length ?A + length ?s + 1) (drop (Suc i) es)))
      = map Some (offs (length ?A) (drop (Suc i) es))"
  proof -
    have "map ?f (map Some (offs (length ?A + (length ?s + 1)) (drop (Suc i) es)))
        = map Some (map (\<lambda>p. p - int (length ?s + 1)) (offs (length ?A + (length ?s + 1)) (drop (Suc i) es)))"
      by (simp add: comp_def)
    then show ?thesis by (simp only: map_sub_offs add.assoc)
  qed
  have le': "length ?es' = length es - 1" using i by simp
  have tps: "take (length ?es') ?ps' = map Some (offs 0 ?es')"
  proof -
    have li: "length (take i ?ps) = i" using i le np by simp
    have lm: "length es - Suc i \<le> length (map ?f (drop (Suc i) ?ps))" using le np by simp
    have "take (length es - 1) ?ps' = take (i + (length es - Suc i)) ?ps'" using i by simp
    also have "\<dots> = take i ?ps @ take (length es - Suc i) (map ?f (drop (Suc i) ?ps) @ [None])"
      using li by (simp only: take_append) simp
    also have "\<dots> = take i ?ps @ take (length es - Suc i) (map ?f (drop (Suc i) ?ps))"
      using lm by (simp only: take_append) simp
    finally have "take (length es - 1) ?ps'
        = take i ?ps @ take (length es - Suc i) (map ?f (drop (Suc i) ?ps))" .
    also have "\<dots> = take i ?ps @ map ?f (take (length es - Suc i) (drop (Suc i) ?ps))"
      by (simp add: take_map)
    also have "\<dots> = map Some (offs 0 (take i es)) @ map Some (offs (length ?A) (drop (Suc i) es))"
      unfolding ti di mf ..
    also have "\<dots> = map Some (offs 0 ?es')" by (simp add: offs_append)
    finally show ?thesis using le' by simp
  qed
  have lf: "length (flat es) = length ?A + length ?s + 1 + length ?B" using fl by simp
  have "packed ?pas' ?es'"
  proof (rule packedI[where b = ?b'])
    show "as_usedptr ?pas' = length ?es'" using u le' by simp
    show "length (as_string ?pas') = as_npointers ?pas'" using i le np by simp
    show "length ?es' \<le> as_npointers ?pas'" using le le' by simp
    show "list_all (\<lambda>e. NUL \<notin> set e) ?es'"
    proof -
      have "set (take i es) \<subseteq> set es" "set (drop (Suc i) es) \<subseteq> set es"
        by (auto dest: in_set_takeD in_set_dropD)
      with nf show ?thesis by (auto simp: list_all_iff)
    qed
    show "as_next ?pas' = Some (int (length (flat ?es')))" using nx lf by simp
    show "as_buf ?pas' = Some ?b'" by simp
    show "length ?b' = as_bufsize ?pas'"
      using lb packed_whole_buf(3)[OF p b] lf by simp
    show "length (flat ?es') \<le> length ?b'" by simp
    show "take (length (flat ?es')) ?b' = flat ?es'" by simp
    show "take (length ?es') (as_string ?pas') = map Some (offs 0 ?es')"
      using tps by simp
  qed
  then show ?thesis using r by simp
qed

lemma remove1_at:
  assumes "i < length es" "es ! i = x" "x \<notin> set (take i es)"
  shows "remove1 x es = take i es @ drop (Suc i) es"
proof -
  have "es = take i es @ x # drop (Suc i) es" by (metis id_take_nth_drop assms(1,2))
  then have "remove1 x es = remove1 x (take i es @ x # drop (Suc i) es)" by simp
  also have "\<dots> = take i es @ drop (Suc i) es"
    using assms(3) by (simp add: remove1_append del: append_take_drop_id)
  finally show ?thesis .
qed

lemma remove_first_packed:
  assumes p: "packed pas es" and n: "NUL \<notin> set new"
  shows "i \<le> length es \<Longrightarrow> new \<notin> set (take i es) \<Longrightarrow>
    \<exists>pas'. remove_first pas new i = Some pas' \<and> packed pas' (remove1 new es)
      \<and> as_bufsize pas' = as_bufsize pas \<and> as_npointers pas' = as_npointers pas"
proof (induction "length es - i" arbitrary: i)
  case 0
  then have i: "i = length es" by simp
  then have "remove1 new es = es" using 0 by (simp add: remove1_idem)
  moreover have "remove_first pas new i = Some pas"
    using i p by (subst remove_first.simps) (simp add: packed_def)
  ultimately show ?case using p by simp
next
  case (Suc k)
  then have i: "i < length es" by simp
  then have u: "i < as_usedptr pas" using p by (simp add: packed_def)
  have st: "remove_first pas new i =
      (if strcmp_bytes (es ! i) new = 0 then remove_string pas i else remove_first pas new (i + 1))"
    using u by (subst remove_first.simps) (simp add: get_string_packed[OF p i])
  have eq: "strcmp_bytes (es ! i) new = 0 \<longleftrightarrow> es ! i = new"
    by (rule strcmp_bytes_eq[OF packed_nul_free[OF p i] n])
  show ?case
  proof (cases "es ! i = new")
    case True
    have "remove1 new es = take i es @ drop (Suc i) es"
      by (rule remove1_at[OF i True Suc.prems(2)])
    then show ?thesis using remove_string_packed[OF p i] st eq True by simp
  next
    case False
    have "new \<notin> set (take (Suc i) es)"
      using Suc.prems(2) False i by (simp add: take_Suc_conv_app_nth)
    then have "\<exists>pas'. remove_first pas new (Suc i) = Some pas' \<and> packed pas' (remove1 new es)
      \<and> as_bufsize pas' = as_bufsize pas \<and> as_npointers pas' = as_npointers pas"
      using Suc.hyps(2) i by (intro Suc.hyps(1)) simp_all
    then show ?thesis using st eq False by simp
  qed
qed

lemma remove_strings_packed:
  assumes "packed pas es" and "list_all (\<lambda>e. NUL \<notin> set e) ns"
  shows "\<exists>pas'. remove_strings pas ns = Some pas' \<and> packed pas' (rem_all es ns)
      \<and> as_bufsize pas' = as_bufsize pas \<and> as_npointers pas' = as_npointers pas"
  using assms
proof (induction ns arbitrary: pas es)
  case Nil
  then show ?case by (simp add: rem_all_def)
next
  case (Cons new rest)
  then have n: "NUL \<notin> set new" by simp
  obtain pas1 where r1: "remove_first pas new 0 = Some pas1" and p1: "packed pas1 (remove1 new es)"
    and s1: "as_bufsize pas1 = as_bufsize pas" "as_npointers pas1 = as_npointers pas"
    using remove_first_packed[OF Cons.prems(1) n, of 0] by auto
  have "\<exists>pas'. remove_strings pas1 rest = Some pas' \<and> packed pas' (rem_all (remove1 new es) rest)
      \<and> as_bufsize pas' = as_bufsize pas1 \<and> as_npointers pas' = as_npointers pas1"
    using Cons.prems(2) by (intro Cons.IH[OF p1]) simp
  then show ?case using r1 s1 by (auto simp: rem_all_def)
qed

lemma packed_operand:
  assumes "packed newpas ns"
  shows "as_strings newpas = Some ns" "list_all (\<lambda>e. NUL \<notin> set e) ns"
    "as_usedptr newpas = length ns" "as_next newpas = Some (int (length (flat ns)))"
  using assms as_strings_packed[OF assms] by (simp_all add: packed_def)

lemma decr_part_packed:
  assumes "packed pas es" "packed newpas ns"
  shows "\<exists>pas'. decr_part pas newpas = Some (None, pas') \<and> packed pas' (rem_all es ns)"
  using remove_strings_packed[OF assms(1) packed_operand(2)[OF assms(2)]]
  by (auto simp: decr_part_def packed_operand(1)[OF assms(2)])

subsection \<open>The check for duplicates\<close>

lemma chk_dup_acl_packed:
  assumes "packed pas es" "packed newpas ns"
  shows "chk_dup_acl pas newpas = Some (if dup_in es ns then 1 else 0)"
proof -
  have nn: "\<And>i. i < length ns \<Longrightarrow> NUL \<notin> set (ns ! i)"
    using packed_nul_free[OF assms(2)] .
  have ne: "\<And>i. i < length es \<Longrightarrow> NUL \<notin> set (es ! i)"
    using packed_nul_free[OF assms(1)] .
  let ?L = "\<exists>i \<in> {0 ..< length ns}.
           (\<exists>j \<in> {0 ..< length ns}. i \<noteq> j \<and> strcmp_bytes (ns ! i) (ns ! j) = 0)
         \<or> (\<exists>j \<in> {0 ..< length es}. strcmp_bytes (ns ! i) (es ! j) = 0)"
  have "?L \<longleftrightarrow> dup_in es ns"
  proof
    assume ?L
    then obtain i where "i \<in> {0 ..< length ns}"
      and c: "(\<exists>j \<in> {0 ..< length ns}. i \<noteq> j \<and> strcmp_bytes (ns ! i) (ns ! j) = 0)
         \<or> (\<exists>j \<in> {0 ..< length es}. strcmp_bytes (ns ! i) (es ! j) = 0)"
      by (rule bexE)
    then have i: "i < length ns" by simp
    from c show "dup_in es ns"
    proof
      assume "\<exists>j \<in> {0 ..< length ns}. i \<noteq> j \<and> strcmp_bytes (ns ! i) (ns ! j) = 0"
      then obtain j where "j < length ns" "i \<noteq> j" "ns ! i = ns ! j"
        using strcmp_bytes_eq[OF nn[OF i] nn] by auto
      then have "\<not> distinct ns" using i by (auto simp: distinct_conv_nth)
      then show ?thesis by (simp add: dup_in_def)
    next
      assume "\<exists>j \<in> {0 ..< length es}. strcmp_bytes (ns ! i) (es ! j) = 0"
      then obtain j where "j < length es" "ns ! i = es ! j"
        using strcmp_bytes_eq[OF nn[OF i] ne] by auto
      then have "ns ! i \<in> set ns \<inter> set es" using i by (auto simp: in_set_conv_nth)
      then show ?thesis by (auto simp: dup_in_def)
    qed
  next
    assume "dup_in es ns"
    then consider "\<not> distinct ns" | "set ns \<inter> set es \<noteq> {}" by (auto simp: dup_in_def)
    then show ?L
    proof cases
      case 1
      then obtain i j where ij: "i < length ns" "j < length ns" "i \<noteq> j" "ns ! i = ns ! j"
        by (auto simp: distinct_conv_nth)
      then have s: "strcmp_bytes (ns ! i) (ns ! j) = 0"
        using strcmp_bytes_eq[OF nn[OF ij(1)] nn[OF ij(2)]] by simp
      show ?thesis
        by (rule bexI[of _ i], rule disjI1, rule bexI[of _ j]) (use ij s in simp_all)
    next
      case 2
      then obtain x where "x \<in> set ns" "x \<in> set es" by auto
      then obtain i j where ij: "i < length ns" "j < length es" "ns ! i = x" "es ! j = x"
        by (auto simp: in_set_conv_nth)
      then have s: "strcmp_bytes (ns ! i) (es ! j) = 0"
        using strcmp_bytes_eq[OF nn[OF ij(1)] ne[OF ij(2)]] by simp
      show ?thesis
        by (rule bexI[of _ i], rule disjI2, rule bexI[of _ j]) (use ij s in simp_all)
    qed
  qed
  then show ?thesis
    by (simp add: chk_dup_acl_def as_strings_packed[OF assms(1)] as_strings_packed[OF assms(2)])
qed

subsection \<open>The three operators\<close>

text \<open>
  \<open>INCR\<close> ends in one of four ways: a duplicate, with the array as it was; no memory,
  with the entries as they were; a read outside a string in the order function; or the
  list \<open>ins_all\<close> gives.  \<open>SET\<close> is \<open>INCR\<close> on the emptied array.
\<close>

lemma packed_grow_buf:
  assumes p: "packed pas es" and n: "as_bufsize pas \<le> need"
  shows "packed (pas\<lparr>as_buf := Some (case as_buf pas of
                                         None \<Rightarrow> fresh_bytes al need
                                       | Some b \<Rightarrow> take need (b @ fresh_bytes al (need - length b))),
                      as_bufsize := need\<rparr>) es"
proof (cases "as_buf pas")
  case None
  then have "es = []" using p by (simp add: packed_def)
  then show ?thesis using p None by (simp add: packed_def fresh_bytes_def)
next
  case (Some b)
  have l: "length b = as_bufsize pas" "length (flat es) \<le> length b"
    "take (length (flat es)) b = flat es"
    using p Some by (simp_all add: packed_def)
  let ?b' = "take need (b @ fresh_bytes al (need - length b))"
  have 1: "length ?b' = need" using l(1) n by (simp add: fresh_bytes_def)
  have 2: "take (length (flat es)) ?b' = flat es" using l n by (simp add: min_def)
  show ?thesis using p Some 1 2 l n by (simp add: packed_def)
qed

lemma packed_grow_ptrs:
  assumes p: "packed pas es" and n: "as_npointers pas \<le> m"
  shows "packed (pas\<lparr>as_npointers := m,
                      as_string := as_string pas @ replicate (m - length (as_string pas)) None\<rparr>) es"
  using p n by (cases "as_buf pas") (auto simp: packed_def)

lemma incr_part_cases:
  assumes p: "packed pas es" and q: "packed newpas ns"
  obtains
    (dup) "dup_in es ns" "incr_part al pas newpas f = Some (Some PBSE_DUPLIST, pas)"
  | (nomem) pas' where "\<not> dup_in es ns" "\<not> (realloc_buf_ok al \<and> realloc_pas_ok al)"
      "incr_part al pas newpas f = Some (Some PBSE_SYSTEM, pas')" "packed pas' es"
  | (fault) "\<not> dup_in es ns" "ins_all f es ns = None" "incr_part al pas newpas f = None"
  | (ok) pas' es' where "\<not> dup_in es ns" "ins_all f es ns = Some es'"
      "incr_part al pas newpas f = Some (None, pas')" "packed pas' es'"
proof (cases "dup_in es ns")
  case True
  then have "incr_part al pas newpas f = Some (Some PBSE_DUPLIST, pas)"
    by (simp add: incr_part_def chk_dup_acl_packed[OF p q])
  with True show ?thesis by (rule dup)
next
  case False
  note q' = packed_operand[OF q]
  have u: "as_usedptr pas = length es" and nx: "as_next pas = Some (int (length (flat es)))"
    and np: "length (as_string pas) = as_npointers pas"
    using p by (auto simp: packed_def)
  have used: "length (flat es) \<le> as_bufsize pas"
    using p by (cases "as_buf pas") (auto simp: packed_def)
  define nsize where "nsize = length (flat ns)"
  define grow where "grow \<longleftrightarrow> int nsize > int (as_bufsize pas) - int (length (flat es))"
  define need where "need = as_bufsize pas + 2 * nsize"
  define pas1 where "pas1 = (if grow
       then pas\<lparr>as_buf := Some (case as_buf pas of
                                   None \<Rightarrow> fresh_bytes al need
                                 | Some b \<Rightarrow> take need (b @ fresh_bytes al (need - length b))),
                as_bufsize := need\<rparr>
       else pas)"
  define j where "j = as_usedptr pas1 + as_usedptr newpas"
  define j' where "j' = 3 * j div 2"
  define pas2 where "pas2 = (if j > as_npointers pas1
       then pas1\<lparr>as_npointers := j',
                 as_string := as_string pas1 @ replicate (j' - length (as_string pas1)) None\<rparr>
       else pas1)"
  have eq: "incr_part al pas newpas f =
      (if grow \<and> \<not> realloc_buf_ok al then Some (Some PBSE_SYSTEM, pas)
       else if j > as_npointers pas1 \<and> \<not> realloc_pas_ok al then Some (Some PBSE_SYSTEM, pas1)
       else do { pas3 \<leftarrow> insert_strings f pas2 ns; Some (None, pas3) })"
    unfolding pas2_def j'_def j_def pas1_def need_def grow_def nsize_def
      incr_part_def chk_dup_acl_packed[OF p q] q'(4) nx
    using False
    by (simp add: Let_def q'(1))
  have p1: "packed pas1 es"
    unfolding pas1_def using packed_grow_buf[OF p, of need al] p by (simp add: need_def)
  have j: "j = length es + length ns"
    using p1 q'(3) by (simp add: j_def packed_def)
  have p2: "packed pas2 es"
    unfolding pas2_def using packed_grow_ptrs[OF p1, of j'] p1 by (simp add: j'_def)
  have cap_buf: "length (flat es) + length (flat ns) \<le> as_bufsize pas2"
  proof -
    have "as_bufsize pas2 = as_bufsize pas1" by (simp add: pas2_def)
    moreover have "length (flat es) + nsize \<le> as_bufsize pas1"
      using used nx by (auto simp: pas1_def grow_def need_def)
    ultimately show ?thesis by (simp add: nsize_def)
  qed
  have cap_ptr: "length es + length ns \<le> as_npointers pas2"
    using j by (auto simp: pas2_def j'_def)
  have buf: "ns = [] \<or> as_buf pas2 \<noteq> None"
  proof (cases "ns = []")
    case True
    then show ?thesis by simp
  next
    case False
    then have "0 < nsize" by (cases ns) (simp_all add: nsize_def)
    have "as_buf pas1 \<noteq> None"
    proof (cases "as_buf pas")
      case None
      then have "as_bufsize pas = 0" "es = []" using p by (simp_all add: packed_def)
      then have grow using \<open>0 < nsize\<close> nx by (simp add: grow_def)
      then show ?thesis by (simp add: pas1_def)
    next
      case (Some b)
      then show ?thesis by (simp add: pas1_def)
    qed
    then show ?thesis by (simp add: pas2_def)
  qed
  note ins = insert_strings_packed[OF p2 q'(2) buf cap_buf cap_ptr, of f]
  show ?thesis
  proof (cases "grow \<and> \<not> realloc_buf_ok al")
    case True
    then have "incr_part al pas newpas f = Some (Some PBSE_SYSTEM, pas)" by (simp add: eq)
    with False True p show ?thesis by (intro nomem[of pas]) auto
  next
    case g: False
    show ?thesis
    proof (cases "j > as_npointers pas1 \<and> \<not> realloc_pas_ok al")
      case True
      then have "incr_part al pas newpas f = Some (Some PBSE_SYSTEM, pas1)" using g by (auto simp: eq)
      with False True p1 show ?thesis by (intro nomem[of pas1]) auto
    next
      case h: False
      have e: "incr_part al pas newpas f = do { pas3 \<leftarrow> insert_strings f pas2 ns; Some (None, pas3) }"
        using g h by (auto simp: eq)
      show ?thesis
      proof (cases "ins_all f es ns")
        case None
        then have "incr_part al pas newpas f = None" using ins e by simp
        with False None show ?thesis by (rule fault)
      next
        case (Some es')
        then obtain pas3 where "insert_strings f pas2 ns = Some pas3" "packed pas3 es'"
          using ins by auto
        then have "incr_part al pas newpas f = Some (None, pas3)" "packed pas3 es'"
          using e by simp_all
        with False Some show ?thesis by (rule ok)
      qed
    qed
  qed
qed





section \<open>\<open>set_allacl\<close>\<close>

lemma holds_strings: "holds attr es \<Longrightarrow> attr_strings attr = Some es"
  by (cases "at_arst attr") (auto simp: holds_def attr_strings_def as_strings_packed)

lemma packed_new_array: "packed (new_array n) []"
  by (simp add: packed_def new_array_def offsets_def)

lemma holds_update [simp]: "holds (attr\<lparr>at_arst := Some pas\<rparr>) es \<longleftrightarrow> packed pas es"
  by (simp add: holds_def)

lemma holds_post [simp]: "holds (post_attr_set attr) es \<longleftrightarrow> holds attr es"
  by (simp add: holds_def post_attr_set_def)

lemma packed_start_array: "holds attr es \<Longrightarrow> packed (start_array attr newpas) es"
  by (cases "at_arst attr") (auto simp: holds_def start_array_def packed_new_array)

lemma finish_simps [simp]:
  "finish attr None = None"
  "finish attr (Some (None, pas')) = Some (None, post_attr_set (attr\<lparr>at_arst := Some pas'\<rparr>))"
  "finish attr (Some (Some e, pas')) = Some (Some e, attr\<lparr>at_arst := Some pas'\<rparr>)"
  by (simp_all add: finish_def)

lemma set_allacl_operand:
  assumes "ATR_VFLAG_SET \<in> at_flags new" "at_arst new = Some newpas"
  shows "set_allacl al attr new op f =
     (if at_arst attr = None \<and> \<not> malloc_pas_ok al then Some (Some PBSE_SYSTEM, attr)
      else finish attr
        (case op of
           SET \<Rightarrow> set_part al (start_array attr newpas) newpas f
         | INCR \<Rightarrow> incr_part al (start_array attr newpas) newpas f
         | DECR \<Rightarrow> decr_part (start_array attr newpas) newpas
         | _ \<Rightarrow> Some (Some PBSE_INTERNAL, start_array attr newpas)))"
  unfolding set_allacl_def finish_def start_array_def Let_def using assms by simp

lemma holds_attr_of: "list_all (\<lambda>e. NUL \<notin> set e) es \<Longrightarrow> holds (attr_of es) es"
  by (simp add: holds_def attr_of_def packed_array_of)

lemma outcomeD:
  "outcome r = Some (e, Some es) \<Longrightarrow> \<exists>attr'. r = Some (e, attr') \<and> attr_strings attr' = Some es"
  by (auto simp: outcome_def)





text \<open>
  After a \<open>SET\<close> that failed for the new block, the next \<open>INCR\<close> computes with the
  pointer to the freed block.
\<close>

lemma add_after_failed_replace:
  "(case set_hostacl no_block_alloc (attr_of [''a'', ''b'']) (attr_of [''ccc'', ''ddd'']) SET of
      Some (Some PBSE_SYSTEM, attr') \<Rightarrow> set_hostacl good_alloc attr' (attr_of [''x'']) INCR = None
    | _ \<Rightarrow> False)"
  by code_simp

text \<open>
  Claim C5, as amended.  For \<open>INCR\<close> with a string twice in the operand, or in the
  operand and in the list, \<open>set_allacl\<close> fails and the entries stay as they are; the
  error is that for a duplicate, unless the attribute has no array and none can be
  allocated, which is reported first.  Without such a string the error for a duplicate is
  never reported, and where no allocation fails and the order function is defined on the
  entries it compares the call succeeds and the attribute holds the list \<open>ins_all\<close>
  gives.
\<close>

theorem add_duplicates:
  assumes "holds attr es" and "ATR_VFLAG_SET \<in> at_flags new" and "at_arst new = Some newpas"
    and "packed newpas ns"
  shows "(dup_in es ns \<longrightarrow>
            (\<exists>e attr'. set_allacl al attr new INCR f = Some (Some e, attr')
               \<and> attr_strings attr' = Some es
               \<and> (e = PBSE_DUPLIST \<or> (e = PBSE_SYSTEM \<and> at_arst attr = None \<and> \<not> malloc_pas_ok al))))
       \<and> (\<not> dup_in es ns \<longrightarrow>
            (\<forall>attr'. set_allacl al attr new INCR f \<noteq> Some (Some PBSE_DUPLIST, attr'))
            \<and> (\<forall>es'. alloc_ok al \<and> ins_all f es ns = Some es' \<longrightarrow>
                  (\<exists>attr'. set_allacl al attr new INCR f = Some (None, attr')
                     \<and> attr_strings attr' = Some es')))"
proof -
  let ?pas = "start_array attr newpas"
  have p: "packed ?pas es" by (rule packed_start_array[OF assms(1)])
  note eq = set_allacl_operand[OF assms(2,3), of al attr INCR f]
  show ?thesis
  proof (cases "at_arst attr = None \<and> \<not> malloc_pas_ok al")
    case True
    then have "set_allacl al attr new INCR f = Some (Some PBSE_SYSTEM, attr)" using eq by simp
    then show ?thesis using True holds_strings[OF assms(1)] by (auto simp: alloc_ok_def)
  next
    case False
    then have r: "set_allacl al attr new INCR f = finish attr (incr_part al ?pas newpas f)"
      using eq by auto
    show ?thesis
    proof (cases rule: incr_part_cases[OF p assms(4), of al f, case_names dup nomem fault ok])
      case dup
      have "holds (attr\<lparr>at_arst := Some ?pas\<rparr>) es" using p by simp
      then have "attr_strings (attr\<lparr>at_arst := Some ?pas\<rparr>) = Some es" by (rule holds_strings)
      then show ?thesis using r dup by simp
    next
      case (nomem pas')
      then show ?thesis using r by (auto simp: alloc_ok_def)
    next
      case fault
      then show ?thesis using r by simp
    next
      case (ok pas' es')
      have "holds (post_attr_set (attr\<lparr>at_arst := Some pas'\<rparr>)) es'" using ok(4) by simp
      then have "attr_strings (post_attr_set (attr\<lparr>at_arst := Some pas'\<rparr>)) = Some es'"
        by (rule holds_strings)
      then show ?thesis using r ok by simp
    qed
  qed
qed

text \<open>
  A Host list and an operand that repeats one of its entries, and an operand that does
  not.
\<close>

theorem add_duplicates_witness:
  "holds (attr_of [''a.com'', ''b.org'']) [''a.com'', ''b.org'']
   \<and> packed (array_of [''c.com'', ''a.com'']) [''c.com'', ''a.com'']
   \<and> dup_in [''a.com'', ''b.org''] [''c.com'', ''a.com'']
   \<and> (\<exists>attr'. set_allacl good_alloc (attr_of [''a.com'', ''b.org'']) (attr_of [''c.com'', ''a.com'']) INCR host_order
                 = Some (Some PBSE_DUPLIST, attr')
          \<and> attr_strings attr' = Some [''a.com'', ''b.org''])
   \<and> packed (array_of [''c.com'', ''*.org'']) [''c.com'', ''*.org'']
   \<and> \<not> dup_in [''a.com'', ''b.org''] [''c.com'', ''*.org'']
   \<and> alloc_ok good_alloc
   \<and> ins_all host_order [''a.com'', ''b.org''] [''c.com'', ''*.org''] = Some [''c.com'', ''a.com'', ''b.org'', ''*.org'']
   \<and> (\<exists>attr'. set_allacl good_alloc (attr_of [''a.com'', ''b.org'']) (attr_of [''c.com'', ''*.org'']) INCR host_order
                 = Some (None, attr')
          \<and> attr_strings attr' = Some [''c.com'', ''a.com'', ''b.org'', ''*.org''])"
proof -
  have h: "holds (attr_of [''a.com'', ''b.org'']) [''a.com'', ''b.org'']"
    by (rule holds_attr_of) (simp add: NUL_def)
  have f1: "ATR_VFLAG_SET \<in> at_flags (attr_of [''c.com'', ''a.com''])"
    and f2: "ATR_VFLAG_SET \<in> at_flags (attr_of [''c.com'', ''*.org''])"
    by (simp_all add: attr_of_def)
  have o1: "at_arst (attr_of [''c.com'', ''a.com'']) = Some (array_of [''c.com'', ''a.com''])"
    and o2: "at_arst (attr_of [''c.com'', ''*.org'']) = Some (array_of [''c.com'', ''*.org''])"
    by (simp_all add: attr_of_def)
  have p1: "packed (array_of [''c.com'', ''a.com'']) [''c.com'', ''a.com'']"
    by (rule packed_array_of) (simp add: NUL_def)
  have p2: "packed (array_of [''c.com'', ''*.org'']) [''c.com'', ''*.org'']"
    by (rule packed_array_of) (simp add: NUL_def)
  have d1: "dup_in [''a.com'', ''b.org''] [''c.com'', ''a.com'']" by (simp add: dup_in_def)
  have d2: "\<not> dup_in [''a.com'', ''b.org''] [''c.com'', ''*.org'']" by (simp add: dup_in_def)
  have a: "alloc_ok good_alloc" by (simp add: alloc_ok_def good_alloc_def)
  have i: "ins_all host_order [''a.com'', ''b.org''] [''c.com'', ''*.org''] = Some [''c.com'', ''a.com'', ''b.org'', ''*.org'']"
    by code_simp
  have n: "at_arst (attr_of [''a.com'', ''b.org'']) \<noteq> None" by (simp add: attr_of_def)
  from add_duplicates[OF h f1 o1 p1, of good_alloc host_order] d1 n
  have c1: "\<exists>attr'. set_allacl good_alloc (attr_of [''a.com'', ''b.org'']) (attr_of [''c.com'', ''a.com'']) INCR host_order
                 = Some (Some PBSE_DUPLIST, attr')
          \<and> attr_strings attr' = Some [''a.com'', ''b.org'']"
    by auto
  from add_duplicates[OF h f2 o2 p2, of good_alloc host_order] d2 a i
  have c2: "\<exists>attr'. set_allacl good_alloc (attr_of [''a.com'', ''b.org'']) (attr_of [''c.com'', ''*.org'']) INCR host_order
                 = Some (None, attr')
          \<and> attr_strings attr' = Some [''c.com'', ''a.com'', ''b.org'', ''*.org'']"
    by blast
  show ?thesis using h p1 d1 c1 p2 d2 a i c2 by blast
qed

text \<open>
  Claim C5 as stated fails for an Add without duplicates where the block cannot be made
  longer: the call fails with \<open>PBSE_SYSTEM\<close>.
\<close>

theorem add_without_memory:
  "\<not> dup_in [''a''] [''b'']
   \<and> set_hostacl no_buf_alloc (attr_of [''a'']) (attr_of [''b'']) INCR
       = Some (Some PBSE_SYSTEM, attr_of [''a''])"
  by code_simp

text \<open>
  Claim C8, as amended.  For \<open>DECR\<close>, where the attribute has an array or one can be
  allocated, \<open>set_allacl\<close> succeeds and the attribute holds \<open>rem_all es ns\<close>: each
  string of the operand has removed the first entry equal to it byte for byte, a string
  that equals no entry has removed nothing, and the other entries keep their order.
\<close>

theorem remove_entries:
  assumes "holds attr es" and "ATR_VFLAG_SET \<in> at_flags new" and "at_arst new = Some newpas"
    and "packed newpas ns" and "at_arst attr \<noteq> None \<or> malloc_pas_ok al"
  shows "\<exists>attr'. set_allacl al attr new DECR f = Some (None, attr')
           \<and> holds attr' (rem_all es ns) \<and> attr_strings attr' = Some (rem_all es ns)"
proof -
  let ?pas = "start_array attr newpas"
  have p: "packed ?pas es" by (rule packed_start_array[OF assms(1)])
  obtain pas' where d: "decr_part ?pas newpas = Some (None, pas')" and p': "packed pas' (rem_all es ns)"
    using decr_part_packed[OF p assms(4)] by blast
  have "set_allacl al attr new DECR f = Some (None, post_attr_set (attr\<lparr>at_arst := Some pas'\<rparr>))"
    using set_allacl_operand[OF assms(2,3), of al attr DECR f] assms(5) d by auto
  moreover have "holds (post_attr_set (attr\<lparr>at_arst := Some pas'\<rparr>)) (rem_all es ns)"
    using p' by simp
  ultimately show ?thesis using holds_strings by blast
qed

text \<open>
  Three entries and an operand that names one of them and a string that is no entry.
\<close>

theorem remove_entries_witness:
  "holds (attr_of [''a'', ''b'', ''c'']) [''a'', ''b'', ''c'']
   \<and> packed (array_of [''b'', ''x'']) [''b'', ''x'']
   \<and> (\<exists>attr'. set_allacl good_alloc (attr_of [''a'', ''b'', ''c'']) (attr_of [''b'', ''x'']) DECR host_order
                 = Some (None, attr')
          \<and> holds attr' [''a'', ''c''] \<and> attr_strings attr' = Some [''a'', ''c''])"
proof -
  have h: "holds (attr_of [''a'', ''b'', ''c'']) [''a'', ''b'', ''c'']"
    by (rule holds_attr_of) (simp add: NUL_def)
  have f: "ATR_VFLAG_SET \<in> at_flags (attr_of [''b'', ''x''])" by (simp add: attr_of_def)
  have o: "at_arst (attr_of [''b'', ''x'']) = Some (array_of [''b'', ''x''])"
    by (simp add: attr_of_def)
  have p: "packed (array_of [''b'', ''x'']) [''b'', ''x'']"
    by (rule packed_array_of) (simp add: NUL_def)
  have n: "at_arst (attr_of [''a'', ''b'', ''c'']) \<noteq> None \<or> malloc_pas_ok good_alloc"
    by (simp add: attr_of_def)
  have r: "rem_all [''a'', ''b'', ''c''] [''b'', ''x''] = [''a'', ''c'']"
    by (simp add: rem_all_def)
  from remove_entries[OF h f o p n, of host_order] r h p show ?thesis by simp
qed

text \<open>
  Claim C8 as stated fails for an attribute that has no array yet where none can be
  allocated: the Remove fails with \<open>PBSE_SYSTEM\<close>.
\<close>

theorem remove_without_memory:
  "set_hostacl no_pas_alloc unset_attr (attr_of [''x'']) DECR = Some (Some PBSE_SYSTEM, unset_attr)"
  by code_simp

section \<open>The order of the entries\<close>

text \<open>
  Claim C2.  \<open>host_order\<close> answers 1 for two entries whose text is \<open>*\<close>, in either
  order and also for an entry and itself.  Adding \<open>+*\<close> to the Host list that holds
  \<open>*\<close> succeeds and puts \<open>+*\<close> before \<open>*\<close>, and the order function on this
  adjacent pair is 1.
\<close>

theorem star_entries_out_of_order:
  "outcome (set_hostacl good_alloc (attr_of [''*'']) (attr_of [''+*'']) INCR)
     = Some (None, Some [''+*'', ''*''])
   \<and> host_order (''+*'', 0) (''*'', 0) = Some 1
   \<and> host_order (''*'', 0) (''+*'', 0) = Some 1
   \<and> host_order (''*'', 0) (''*'', 0) = Some 1"
  by code_simp

section \<open>Entries that match the same hosts\<close>

text \<open>
  Claim C10.  To the Host list that holds \<open>+a.com\<close>, the entry \<open>+A.COM\<close> and the
  entry \<open>-a.com\<close> are added without the error for a duplicate, and the list then holds
  both entries; the match function of \<open>acl_check\<close> answers the same for the old and
  the new entry on every candidate.
\<close>

theorem near_duplicates_accepted:
  "(\<exists>attr'. set_hostacl good_alloc (attr_of [''+a.com'']) (attr_of [''+A.COM'']) INCR = Some (None, attr')
       \<and> attr_strings attr' = Some [''+a.com'', ''+A.COM''])
   \<and> (\<exists>attr'. set_hostacl good_alloc (attr_of [''+a.com'']) (attr_of [''-a.com'']) INCR = Some (None, attr')
       \<and> attr_strings attr' = Some [''+a.com'', ''-a.com''])
   \<and> (\<forall>can. match_func env ACL_Host (can, 0) (entry_ptr ''+a.com'')
            = match_func env ACL_Host (can, 0) (entry_ptr ''+A.COM''))
   \<and> (\<forall>can. match_func env ACL_Host (can, 0) (entry_ptr ''+a.com'')
            = match_func env ACL_Host (can, 0) (entry_ptr ''-a.com''))"
proof -
  have "outcome (set_hostacl good_alloc (attr_of [''+a.com'']) (attr_of [''+A.COM'']) INCR)
      = Some (None, Some [''+a.com'', ''+A.COM''])"
    by code_simp
  then have 1: "\<exists>attr'. set_hostacl good_alloc (attr_of [''+a.com'']) (attr_of [''+A.COM'']) INCR = Some (None, attr')
       \<and> attr_strings attr' = Some [''+a.com'', ''+A.COM'']"
    by (rule outcomeD)
  have "outcome (set_hostacl good_alloc (attr_of [''+a.com'']) (attr_of [''-a.com'']) INCR)
      = Some (None, Some [''+a.com'', ''-a.com''])"
    by code_simp
  then have 2: "\<exists>attr'. set_hostacl good_alloc (attr_of [''+a.com'']) (attr_of [''-a.com'']) INCR = Some (None, attr')
       \<and> attr_strings attr' = Some [''+a.com'', ''-a.com'']"
    by (rule outcomeD)
  have p: "entry_ptr ''+a.com'' = (''+a.com'', 1)" "entry_ptr ''+A.COM'' = (''+A.COM'', 1)"
    "entry_ptr ''-a.com'' = (''-a.com'', 1)"
    by (simp_all add: entry_ptr_def)
  have l: "map lower ''a.com'' = map lower ''A.COM''"
    by (simp add: lower_def tolower_def char_int_def)
  have 3: "hacl_match (can, 0) (''+a.com'', 1) = hacl_match (can, 0) (''+A.COM'', 1)" for can
    using hacl_match_lower[OF l, of can] by (simp add: hacl_match_tl)
  have 4: "hacl_match (can, 0) (''+a.com'', 1) = hacl_match (can, 0) (''-a.com'', 1)" for can
    by (simp add: hacl_match_tl)
  show ?thesis using 1 2 3 4 by (simp add: match_func_def p)
qed

end
